theory Spec2Isabelle
  imports Main "HOL-Library.Monad_Syntax" "HOL-Library.Word"
begin

section \<open>The red-black tree utility (namespace \<open>ipr::util::rb_tree\<close>)\<close>

subsection \<open>Links, nodes and the memory they live in\<close>

text \<open>
  \<open>link<Node>\<close> holds three arms (\<open>arm[Left]\<close>, \<open>arm[Right]\<close>, \<open>arm[Parent]\<close>, read and
  written through \<open>left()\<close>, \<open>right()\<close>, \<open>parent()\<close>) and a colour. A \<open>Node*\<close> is a
  \<open>nat option\<close>: \<open>None\<close> is the null pointer, \<open>Some a\<close> points to the cell at address
  \<open>a\<close>. Everything of a node that is not its link is its payload \<open>data\<close>
  (\<open>node<T>::data\<close> for the owning tree, the rest of the object for an embedded node);
  comparators read payloads only.
\<close>

datatype Color = Black | Red

record 'a node =
  left :: "nat option"
  right :: "nat option"
  parent :: "nat option"
  color :: Color
  data :: 'a

text \<open>
  \<open>core<Node>\<close> has the members \<open>root\<close> and \<open>count\<close>. The methods read and write the
  nodes through pointers, so the state they transform also holds the memory \<open>mem\<close>
  (address to cell) and, for the owning tree, the frontier \<open>brk\<close> of \<open>operator new\<close>:
  the next address it hands out. \<open>count\<close> is a C++ \<open>int\<close>, a 32-bit word: \<open>++count\<close> is
  \<open>count + 1\<close> on words, which wraps from \<open>2^31 - 1\<close> to \<open>- 2^31\<close> (what the machine
  does on the signed overflow that C++ leaves undefined). \<open>size()\<close> returns that word;
  \<open>sint\<close> reads it as the signed integer the caller sees.
\<close>

record 'a core =
  root :: "nat option"
  count :: "32 word"
  mem :: "nat \<Rightarrow> 'a node"
  brk :: nat

definition size_core :: "'a core \<Rightarrow> 32 word" where
  "size_core c = count c"

abbreviation lft :: "'a core \<Rightarrow> nat \<Rightarrow> nat option" where
  "lft c a \<equiv> left (mem c a)"

abbreviation rgt :: "'a core \<Rightarrow> nat \<Rightarrow> nat option" where
  "rgt c a \<equiv> right (mem c a)"

abbreviation par :: "'a core \<Rightarrow> nat \<Rightarrow> nat option" where
  "par c a \<equiv> parent (mem c a)"

abbreviation col :: "'a core \<Rightarrow> nat \<Rightarrow> Color" where
  "col c a \<equiv> color (mem c a)"

abbreviation dat :: "'a core \<Rightarrow> nat \<Rightarrow> 'a" where
  "dat c a \<equiv> data (mem c a)"

definition set_left :: "nat \<Rightarrow> nat option \<Rightarrow> 'a core \<Rightarrow> 'a core" where
  "set_left a v c = c\<lparr>mem := (mem c)(a := (mem c a)\<lparr>left := v\<rparr>)\<rparr>"

definition set_right :: "nat \<Rightarrow> nat option \<Rightarrow> 'a core \<Rightarrow> 'a core" where
  "set_right a v c = c\<lparr>mem := (mem c)(a := (mem c a)\<lparr>right := v\<rparr>)\<rparr>"

definition set_parent :: "nat \<Rightarrow> nat option \<Rightarrow> 'a core \<Rightarrow> 'a core" where
  "set_parent a v c = c\<lparr>mem := (mem c)(a := (mem c a)\<lparr>parent := v\<rparr>)\<rparr>"

definition set_color :: "nat \<Rightarrow> Color \<Rightarrow> 'a core \<Rightarrow> 'a core" where
  "set_color a k c = c\<lparr>mem := (mem c)(a := (mem c a)\<lparr>color := k\<rparr>)\<rparr>"

definition set_data :: "nat \<Rightarrow> 'a \<Rightarrow> 'a core \<Rightarrow> 'a core" where
  "set_data a x c = c\<lparr>mem := (mem c)(a := (mem c a)\<lparr>data := x\<rparr>)\<rparr>"

subsection \<open>Rotations and the insertion fix-up (\<open>core<Node>\<close>)\<close>

text \<open>
  The methods run in the option monad: \<open>None\<close> is a call that does not return normally,
  because it dereferences a null pointer (undefined behaviour in C++) or because a loop
  never ends. Binding a pointer (\<open>y \<leftarrow> rgt c x\<close>) is dereferencing it.
\<close>

definition rotate_left :: "'a core \<Rightarrow> nat \<Rightarrow> 'a core option" where
  "rotate_left c x = do {
     y \<leftarrow> rgt c x;
     let c1 = set_right x (lft c y) c;
     let c2 = (case lft c1 y of None \<Rightarrow> c1 | Some b \<Rightarrow> set_parent b (Some x) c1);
     let c3 = set_parent y (par c2 x) c2;
     c4 \<leftarrow> (case par c3 x of
             None \<Rightarrow> Some (c3\<lparr>root := Some y\<rparr>)
           | Some g \<Rightarrow>
               if lft c3 g = Some x then Some (set_left g (Some y) c3)
               else Some (set_right g (Some y) c3));
     let c5 = set_left y (Some x) c4;
     Some (set_parent x (Some y) c5)
   }"

definition rotate_right :: "'a core \<Rightarrow> nat \<Rightarrow> 'a core option" where
  "rotate_right c x = do {
     y \<leftarrow> lft c x;
     let c1 = set_left x (rgt c y) c;
     let c2 = (case rgt c1 y of None \<Rightarrow> c1 | Some b \<Rightarrow> set_parent b (Some x) c1);
     let c3 = set_parent y (par c2 x) c2;
     c4 \<leftarrow> (case par c3 x of
             None \<Rightarrow> Some (c3\<lparr>root := Some y\<rparr>)
           | Some g \<Rightarrow>
               if rgt c3 g = Some x then Some (set_right g (Some y) c3)
               else Some (set_left g (Some y) c3));
     let c5 = set_right y (Some x) c4;
     Some (set_parent x (Some y) c5)
   }"

text \<open>\<open>y != 0 && y->color == Node::Red\<close>\<close>

definition is_red :: "'a core \<Rightarrow> nat option \<Rightarrow> bool" where
  "is_red c y = (case y of None \<Rightarrow> False | Some u \<Rightarrow> col c u = Red)"

text \<open>
  The branch of the loop body taken when \<open>z->parent() == z->parent()->parent()->left()\<close>;
  \<open>g\<close> is \<open>z->parent()->parent()\<close>. The result is the state and the new \<open>z\<close>.
\<close>

definition fixup_left :: "'a core \<Rightarrow> nat \<Rightarrow> nat \<Rightarrow> ('a core \<times> nat) option" where
  "fixup_left c z g =
     (let y = rgt c g in
      if is_red c y then do {
        p1 \<leftarrow> par c z;
        let c1 = set_color p1 Black c;
        u \<leftarrow> y;
        let c2 = set_color u Black c1;
        p2 \<leftarrow> par c2 z;
        g2 \<leftarrow> par c2 p2;
        let c3 = set_color g2 Red c2;
        p3 \<leftarrow> par c3 z;
        g3 \<leftarrow> par c3 p3;
        Some (c3, g3)
      } else do {
        p0 \<leftarrow> par c z;
        (c1, z1) \<leftarrow> (if rgt c p0 = Some z
                     then do { c' \<leftarrow> rotate_left c p0; Some (c', p0) }
                     else Some (c, z));
        p1 \<leftarrow> par c1 z1;
        let c2 = set_color p1 Black c1;
        p2 \<leftarrow> par c2 z1;
        g2 \<leftarrow> par c2 p2;
        let c3 = set_color g2 Red c2;
        p3 \<leftarrow> par c3 z1;
        g3 \<leftarrow> par c3 p3;
        c4 \<leftarrow> rotate_right c3 g3;
        Some (c4, z1)
      })"

text \<open>The mirrored branch.\<close>

definition fixup_right :: "'a core \<Rightarrow> nat \<Rightarrow> nat \<Rightarrow> ('a core \<times> nat) option" where
  "fixup_right c z g =
     (let y = lft c g in
      if is_red c y then do {
        p1 \<leftarrow> par c z;
        let c1 = set_color p1 Black c;
        u \<leftarrow> y;
        let c2 = set_color u Black c1;
        p2 \<leftarrow> par c2 z;
        g2 \<leftarrow> par c2 p2;
        let c3 = set_color g2 Red c2;
        p3 \<leftarrow> par c3 z;
        g3 \<leftarrow> par c3 p3;
        Some (c3, g3)
      } else do {
        p0 \<leftarrow> par c z;
        (c1, z1) \<leftarrow> (if lft c p0 = Some z
                     then do { c' \<leftarrow> rotate_right c p0; Some (c', p0) }
                     else Some (c, z));
        p1 \<leftarrow> par c1 z1;
        let c2 = set_color p1 Black c1;
        p2 \<leftarrow> par c2 z1;
        g2 \<leftarrow> par c2 p2;
        let c3 = set_color g2 Red c2;
        p3 \<leftarrow> par c3 z1;
        g3 \<leftarrow> par c3 p3;
        c4 \<leftarrow> rotate_left c3 g3;
        Some (c4, z1)
      })"

text \<open>
  The \<open>while\<close> loop of \<open>fixup_insert\<close>:
  \<open>while (z != root && z->parent()->color == Node::Red)\<close>.
\<close>

partial_function (option) fixup_loop :: "'a core \<Rightarrow> nat \<Rightarrow> 'a core option" where
  [code]: "fixup_loop c z =
     (if root c = Some z then Some c
      else do {
        p \<leftarrow> par c z;
        if col c p \<noteq> Red then Some c
        else do {
          g \<leftarrow> par c p;
          (c', z') \<leftarrow> (if Some p = lft c g then fixup_left c z g else fixup_right c z g);
          fixup_loop c' z'
        }
      })"

definition fixup_insert :: "'a core \<Rightarrow> nat \<Rightarrow> 'a core option" where
  "fixup_insert c z = do {
     c' \<leftarrow> fixup_loop c z;
     r \<leftarrow> root c';
     Some (set_color r Black c')
   }"

subsection \<open>The embedded tree (\<open>chain<Node>\<close>)\<close>

text \<open>
  \<open>chain<Node>::find\<close>: the loop variables are \<open>result\<close> and \<open>found\<close>; the comparator
  takes the key and the node.
\<close>

partial_function (option) chain_find_loop ::
  "('k \<Rightarrow> 'a \<Rightarrow> int) \<Rightarrow> 'a core \<Rightarrow> 'k \<Rightarrow> nat option \<Rightarrow> bool \<Rightarrow> nat option option" where
  [code]: "chain_find_loop cmp c key result found =
     (case result of
        None \<Rightarrow> Some result
      | Some a \<Rightarrow>
          if found then Some result
          else let ordering = cmp key (dat c a) in
            if ordering < 0 then chain_find_loop cmp c key (lft c a) found
            else if ordering > 0 then chain_find_loop cmp c key (rgt c a) found
            else chain_find_loop cmp c key result True)"

definition chain_find :: "('k \<Rightarrow> 'a \<Rightarrow> int) \<Rightarrow> 'a core \<Rightarrow> 'k \<Rightarrow> nat option option" where
  "chain_find cmp c key = chain_find_loop cmp c key (root c) False"

text \<open>
  \<open>Node** slot\<close> is the address of a pointer: \<open>&this->root\<close>, \<open>&up->left()\<close> or
  \<open>&up->right()\<close>.
\<close>

datatype slot = RootSlot | LeftSlot nat | RightSlot nat

fun get_slot :: "'a core \<Rightarrow> slot \<Rightarrow> nat option" where
  "get_slot c RootSlot = root c"
| "get_slot c (LeftSlot a) = lft c a"
| "get_slot c (RightSlot a) = rgt c a"

fun set_slot :: "slot \<Rightarrow> nat option \<Rightarrow> 'a core \<Rightarrow> 'a core" where
  "set_slot RootSlot v c = c\<lparr>root := v\<rparr>"
| "set_slot (LeftSlot a) v c = set_left a v c"
| "set_slot (RightSlot a) v c = set_right a v c"

text \<open>
  The descent of \<open>chain<Node>::insert\<close>: \<open>while (!found && *slot != 0)\<close>, with the
  comparator applied to \<open>*z\<close> and \<open>**slot\<close>. It yields the final \<open>slot\<close> and \<open>up\<close>.
\<close>

partial_function (option) chain_insert_loop ::
  "('a \<Rightarrow> 'a \<Rightarrow> int) \<Rightarrow> 'a core \<Rightarrow> nat \<Rightarrow> slot \<Rightarrow> nat option \<Rightarrow> bool
     \<Rightarrow> (slot \<times> nat option) option" where
  [code]: "chain_insert_loop cmp c z slot up found =
     (if found then Some (slot, up)
      else case get_slot c slot of
        None \<Rightarrow> Some (slot, up)
      | Some s \<Rightarrow>
          let ordering = cmp (dat c z) (dat c s) in
          if ordering < 0 then chain_insert_loop cmp c z (LeftSlot s) (Some s) found
          else if ordering > 0 then chain_insert_loop cmp c z (RightSlot s) (Some s) found
          else chain_insert_loop cmp c z slot up True)"

text \<open>\<open>chain<Node>::insert\<close> returns the state and the pointer it returns.\<close>

definition chain_insert ::
  "('a \<Rightarrow> 'a \<Rightarrow> int) \<Rightarrow> 'a core \<Rightarrow> nat \<Rightarrow> ('a core \<times> nat) option" where
  "chain_insert cmp c z = do {
     (slot, up) \<leftarrow> chain_insert_loop cmp c z RootSlot None False;
     c' \<leftarrow> (if root c = None then
              Some (set_color z Black (c\<lparr>root := Some z\<rparr>))
            else if get_slot c slot = None then
              fixup_insert (set_color z Red (set_parent z up (set_slot slot (Some z) c))) z
            else Some c);
     Some (c'\<lparr>count := count c' + 1\<rparr>, z)
   }"

subsection \<open>The owning tree (\<open>container<T>\<close>)\<close>

text \<open>
  \<open>allocate\<close> takes raw memory from \<open>operator new\<close> (the cell at \<open>brk\<close>, whose colour
  and payload are whatever the memory held) and nulls the three arms; \<open>make_node\<close>
  then constructs the payload from the key with \<open>T\<close>'s constructor \<open>mk\<close>.
\<close>

definition allocate :: "'a core \<Rightarrow> 'a core \<times> nat" where
  "allocate c =
     (let n = brk c;
          c0 = c\<lparr>brk := Suc n\<rparr>;
          c1 = set_left n None c0;
          c2 = set_right n None c1;
          c3 = set_parent n None c2
      in (c3, n))"

definition make_node :: "('k \<Rightarrow> 'a) \<Rightarrow> 'a core \<Rightarrow> 'k \<Rightarrow> 'a core \<times> nat" where
  "make_node mk c u = (let (c1, n) = allocate c in (set_data n (mk u) c1, n))"

text \<open>
  \<open>container<T>::find\<close> returns \<open>&x->data\<close> or null; a payload is identified by the
  address of its node.
\<close>

partial_function (option) container_find_loop ::
  "('k \<Rightarrow> 'a \<Rightarrow> int) \<Rightarrow> 'a core \<Rightarrow> 'k \<Rightarrow> nat option \<Rightarrow> nat option option" where
  [code]: "container_find_loop cmp c key lnk =
     (case lnk of
        None \<Rightarrow> Some None
      | Some a \<Rightarrow>
          let ordering = cmp key (dat c a) in
          if ordering < 0 then container_find_loop cmp c key (lft c a)
          else if ordering > 0 then container_find_loop cmp c key (rgt c a)
          else Some (Some a))"

definition container_find :: "('k \<Rightarrow> 'a \<Rightarrow> int) \<Rightarrow> 'a core \<Rightarrow> 'k \<Rightarrow> nat option option" where
  "container_find cmp c key = container_find_loop cmp c key (root c)"

text \<open>
  The \<open>for\<close> loop of \<open>container<T>::insert\<close>:
  \<open>for (where = root; where != 0 && !found; where = *slot)\<close>. It yields the final
  \<open>slot\<close>, \<open>parent\<close> and \<open>where\<close>.
\<close>

partial_function (option) container_insert_loop ::
  "('k \<Rightarrow> 'a \<Rightarrow> int) \<Rightarrow> 'a core \<Rightarrow> 'k \<Rightarrow> slot \<Rightarrow> nat option \<Rightarrow> nat option \<Rightarrow> bool
     \<Rightarrow> (slot \<times> nat option \<times> nat option) option" where
  [code]: "container_insert_loop cmp c key slot prnt whr found =
     (case whr of
        None \<Rightarrow> Some (slot, prnt, whr)
      | Some w \<Rightarrow>
          if found then Some (slot, prnt, whr)
          else let ordering = cmp key (dat c w) in
            if ordering < 0 then
              container_insert_loop cmp c key (LeftSlot w) (Some w) (get_slot c (LeftSlot w)) found
            else if ordering > 0 then
              container_insert_loop cmp c key (RightSlot w) (Some w) (get_slot c (RightSlot w)) found
            else container_insert_loop cmp c key slot prnt (get_slot c slot) True)"

definition container_insert ::
  "('k \<Rightarrow> 'a) \<Rightarrow> ('k \<Rightarrow> 'a \<Rightarrow> int) \<Rightarrow> 'a core \<Rightarrow> 'k \<Rightarrow> ('a core \<times> nat) option" where
  "container_insert mk cmp c key =
     (if root c = None then
        (let (c1, n) = make_node mk c key;
             c2 = c1\<lparr>root := Some n\<rparr>
         in do {
           r \<leftarrow> root c2;
           let c3 = set_color r Black c2;
           let c4 = c3\<lparr>count := count c3 + 1\<rparr>;
           r' \<leftarrow> root c4;
           Some (c4, r')
         })
      else do {
        (slot, prnt, whr) \<leftarrow> container_insert_loop cmp c key RootSlot None (root c) False;
        case whr of
          None \<Rightarrow>
            (let (c1, n) = make_node mk c key;
                 c2 = set_slot slot (Some n) c1;
                 c3 = set_parent n prnt c2;
                 c4 = set_color n Red c3;
                 c5 = c4\<lparr>count := count c4 + 1\<rparr>
             in do { c6 \<leftarrow> fixup_insert c5 n; Some (c6, n) })
        | Some w \<Rightarrow> Some (c, w)
      })"

section \<open>Sequences (\<open>impl.hxx\<close>)\<close>

text \<open>The exceptions the sequences throw.\<close>

datatype error = DomainError | OutOfRange | LogicError

text \<open>
  \<open>val_sequence<T>\<close> stores its elements in a \<open>stable_farm<T>\<close> (a forward list);
  \<open>push_back\<close> emplaces after \<open>mark\<close>, the last element, so the list is in insertion
  order. \<open>get\<close> checks the bounds, then advances \<open>p\<close> steps from \<open>begin()\<close>.
\<close>

definition val_sequence_size :: "'a list \<Rightarrow> int" where
  "val_sequence_size xs = int (length xs)"

definition val_sequence_push_back :: "'a list \<Rightarrow> 'a \<Rightarrow> 'a list" where
  "val_sequence_push_back xs x = xs @ [x]"

definition val_sequence_get :: "'a list \<Rightarrow> int \<Rightarrow> error + 'a" where
  "val_sequence_get xs p =
     (if p < 0 \<or> p \<ge> val_sequence_size xs then Inl DomainError
      else Inr (xs ! nat p))"

text \<open>\<open>empty_sequence<T>\<close>\<close>

definition empty_sequence_size :: int where
  "empty_sequence_size = 0"

definition empty_sequence_get :: "int \<Rightarrow> error + 'a" where
  "empty_sequence_get i = Inl DomainError"

text \<open>\<open>singleton_declset<T>\<close> holds a reference \<open>datum\<close> to its only declaration.\<close>

record 'd singleton_declset =
  datum :: 'd

definition singleton_declset_size :: "'d singleton_declset \<Rightarrow> int" where
  "singleton_declset_size s = 1"

definition singleton_declset_get :: "'d singleton_declset \<Rightarrow> int \<Rightarrow> error + 'd" where
  "singleton_declset_get s i = (if i = 1 then Inr (datum s) else Inl DomainError)"

section \<open>The revised copy of the utility\<close>

text \<open>
  The file holds a second copy of \<open>namespace rb_tree\<close>, with \<open>nullptr\<close> for \<open>0\<close> and a
  different division of work between \<open>allocate\<close> and \<open>make_node\<close>. Each of its functions
  is embedded on its own, under the name of the first copy's with \<open>2\<close> appended; the
  types \<open>link\<close>, \<open>node\<close> and \<open>core\<close> are declared alike in both copies.
\<close>

definition rotate_left2 :: "'a core \<Rightarrow> nat \<Rightarrow> 'a core option" where
  "rotate_left2 c x = do {
     y \<leftarrow> rgt c x;
     let c1 = set_right x (lft c y) c;
     let c2 = (case lft c1 y of None \<Rightarrow> c1 | Some b \<Rightarrow> set_parent b (Some x) c1);
     let c3 = set_parent y (par c2 x) c2;
     c4 \<leftarrow> (case par c3 x of
             None \<Rightarrow> Some (c3\<lparr>root := Some y\<rparr>)
           | Some g \<Rightarrow>
               if lft c3 g = Some x then Some (set_left g (Some y) c3)
               else Some (set_right g (Some y) c3));
     let c5 = set_left y (Some x) c4;
     Some (set_parent x (Some y) c5)
   }"

definition rotate_right2 :: "'a core \<Rightarrow> nat \<Rightarrow> 'a core option" where
  "rotate_right2 c x = do {
     y \<leftarrow> lft c x;
     let c1 = set_left x (rgt c y) c;
     let c2 = (case rgt c1 y of None \<Rightarrow> c1 | Some b \<Rightarrow> set_parent b (Some x) c1);
     let c3 = set_parent y (par c2 x) c2;
     c4 \<leftarrow> (case par c3 x of
             None \<Rightarrow> Some (c3\<lparr>root := Some y\<rparr>)
           | Some g \<Rightarrow>
               if rgt c3 g = Some x then Some (set_right g (Some y) c3)
               else Some (set_left g (Some y) c3));
     let c5 = set_right y (Some x) c4;
     Some (set_parent x (Some y) c5)
   }"

definition fixup_left2 :: "'a core \<Rightarrow> nat \<Rightarrow> nat \<Rightarrow> ('a core \<times> nat) option" where
  "fixup_left2 c z g =
     (let y = rgt c g in
      if is_red c y then do {
        p1 \<leftarrow> par c z;
        let c1 = set_color p1 Black c;
        u \<leftarrow> y;
        let c2 = set_color u Black c1;
        p2 \<leftarrow> par c2 z;
        g2 \<leftarrow> par c2 p2;
        let c3 = set_color g2 Red c2;
        p3 \<leftarrow> par c3 z;
        g3 \<leftarrow> par c3 p3;
        Some (c3, g3)
      } else do {
        p0 \<leftarrow> par c z;
        (c1, z1) \<leftarrow> (if rgt c p0 = Some z
                     then do { c' \<leftarrow> rotate_left2 c p0; Some (c', p0) }
                     else Some (c, z));
        p1 \<leftarrow> par c1 z1;
        let c2 = set_color p1 Black c1;
        p2 \<leftarrow> par c2 z1;
        g2 \<leftarrow> par c2 p2;
        let c3 = set_color g2 Red c2;
        p3 \<leftarrow> par c3 z1;
        g3 \<leftarrow> par c3 p3;
        c4 \<leftarrow> rotate_right2 c3 g3;
        Some (c4, z1)
      })"

definition fixup_right2 :: "'a core \<Rightarrow> nat \<Rightarrow> nat \<Rightarrow> ('a core \<times> nat) option" where
  "fixup_right2 c z g =
     (let y = lft c g in
      if is_red c y then do {
        p1 \<leftarrow> par c z;
        let c1 = set_color p1 Black c;
        u \<leftarrow> y;
        let c2 = set_color u Black c1;
        p2 \<leftarrow> par c2 z;
        g2 \<leftarrow> par c2 p2;
        let c3 = set_color g2 Red c2;
        p3 \<leftarrow> par c3 z;
        g3 \<leftarrow> par c3 p3;
        Some (c3, g3)
      } else do {
        p0 \<leftarrow> par c z;
        (c1, z1) \<leftarrow> (if lft c p0 = Some z
                     then do { c' \<leftarrow> rotate_right2 c p0; Some (c', p0) }
                     else Some (c, z));
        p1 \<leftarrow> par c1 z1;
        let c2 = set_color p1 Black c1;
        p2 \<leftarrow> par c2 z1;
        g2 \<leftarrow> par c2 p2;
        let c3 = set_color g2 Red c2;
        p3 \<leftarrow> par c3 z1;
        g3 \<leftarrow> par c3 p3;
        c4 \<leftarrow> rotate_left2 c3 g3;
        Some (c4, z1)
      })"

partial_function (option) fixup_loop2 :: "'a core \<Rightarrow> nat \<Rightarrow> 'a core option" where
  [code]: "fixup_loop2 c z =
     (if root c = Some z then Some c
      else do {
        p \<leftarrow> par c z;
        if col c p \<noteq> Red then Some c
        else do {
          g \<leftarrow> par c p;
          (c', z') \<leftarrow> (if Some p = lft c g then fixup_left2 c z g else fixup_right2 c z g);
          fixup_loop2 c' z'
        }
      })"

definition fixup_insert2 :: "'a core \<Rightarrow> nat \<Rightarrow> 'a core option" where
  "fixup_insert2 c z = do {
     c' \<leftarrow> fixup_loop2 c z;
     r \<leftarrow> root c';
     Some (set_color r Black c')
   }"

partial_function (option) chain_find_loop2 ::
  "('k \<Rightarrow> 'a \<Rightarrow> int) \<Rightarrow> 'a core \<Rightarrow> 'k \<Rightarrow> nat option \<Rightarrow> bool \<Rightarrow> nat option option" where
  [code]: "chain_find_loop2 cmp c key result found =
     (case result of
        None \<Rightarrow> Some result
      | Some a \<Rightarrow>
          if found then Some result
          else let ordering = cmp key (dat c a) in
            if ordering < 0 then chain_find_loop2 cmp c key (lft c a) found
            else if ordering > 0 then chain_find_loop2 cmp c key (rgt c a) found
            else chain_find_loop2 cmp c key result True)"

definition chain_find2 :: "('k \<Rightarrow> 'a \<Rightarrow> int) \<Rightarrow> 'a core \<Rightarrow> 'k \<Rightarrow> nat option option" where
  "chain_find2 cmp c key = chain_find_loop2 cmp c key (root c) False"

partial_function (option) chain_insert_loop2 ::
  "('a \<Rightarrow> 'a \<Rightarrow> int) \<Rightarrow> 'a core \<Rightarrow> nat \<Rightarrow> slot \<Rightarrow> nat option \<Rightarrow> bool
     \<Rightarrow> (slot \<times> nat option) option" where
  [code]: "chain_insert_loop2 cmp c z slot up found =
     (if found then Some (slot, up)
      else case get_slot c slot of
        None \<Rightarrow> Some (slot, up)
      | Some s \<Rightarrow>
          let ordering = cmp (dat c z) (dat c s) in
          if ordering < 0 then chain_insert_loop2 cmp c z (LeftSlot s) (Some s) found
          else if ordering > 0 then chain_insert_loop2 cmp c z (RightSlot s) (Some s) found
          else chain_insert_loop2 cmp c z slot up True)"

definition chain_insert2 ::
  "('a \<Rightarrow> 'a \<Rightarrow> int) \<Rightarrow> 'a core \<Rightarrow> nat \<Rightarrow> ('a core \<times> nat) option" where
  "chain_insert2 cmp c z = do {
     (slot, up) \<leftarrow> chain_insert_loop2 cmp c z RootSlot None False;
     c' \<leftarrow> (if root c = None then
              Some (set_color z Black (c\<lparr>root := Some z\<rparr>))
            else if get_slot c slot = None then
              fixup_insert2 (set_color z Red (set_parent z up (set_slot slot (Some z) c))) z
            else Some c);
     Some (c'\<lparr>count := count c' + 1\<rparr>, z)
   }"

text \<open>
  In this copy \<open>allocate\<close> only takes the memory; \<open>make_node\<close> constructs the payload
  and then nulls the three arms.
\<close>

definition allocate2 :: "'a core \<Rightarrow> 'a core \<times> nat" where
  "allocate2 c = (let n = brk c in (c\<lparr>brk := Suc n\<rparr>, n))"

definition make_node2 :: "('k \<Rightarrow> 'a) \<Rightarrow> 'a core \<Rightarrow> 'k \<Rightarrow> 'a core \<times> nat" where
  "make_node2 mk c u =
     (let (c0, n) = allocate2 c;
          c1 = set_data n (mk u) c0;
          c2 = set_left n None c1;
          c3 = set_right n None c2;
          c4 = set_parent n None c3
      in (c4, n))"

partial_function (option) container_find_loop2 ::
  "('k \<Rightarrow> 'a \<Rightarrow> int) \<Rightarrow> 'a core \<Rightarrow> 'k \<Rightarrow> nat option \<Rightarrow> nat option option" where
  [code]: "container_find_loop2 cmp c key lnk =
     (case lnk of
        None \<Rightarrow> Some None
      | Some a \<Rightarrow>
          let ordering = cmp key (dat c a) in
          if ordering < 0 then container_find_loop2 cmp c key (lft c a)
          else if ordering > 0 then container_find_loop2 cmp c key (rgt c a)
          else Some (Some a))"

definition container_find2 :: "('k \<Rightarrow> 'a \<Rightarrow> int) \<Rightarrow> 'a core \<Rightarrow> 'k \<Rightarrow> nat option option" where
  "container_find2 cmp c key = container_find_loop2 cmp c key (root c)"

partial_function (option) container_insert_loop2 ::
  "('k \<Rightarrow> 'a \<Rightarrow> int) \<Rightarrow> 'a core \<Rightarrow> 'k \<Rightarrow> slot \<Rightarrow> nat option \<Rightarrow> nat option \<Rightarrow> bool
     \<Rightarrow> (slot \<times> nat option \<times> nat option) option" where
  [code]: "container_insert_loop2 cmp c key slot prnt whr found =
     (case whr of
        None \<Rightarrow> Some (slot, prnt, whr)
      | Some w \<Rightarrow>
          if found then Some (slot, prnt, whr)
          else let ordering = cmp key (dat c w) in
            if ordering < 0 then
              container_insert_loop2 cmp c key (LeftSlot w) (Some w) (get_slot c (LeftSlot w)) found
            else if ordering > 0 then
              container_insert_loop2 cmp c key (RightSlot w) (Some w) (get_slot c (RightSlot w)) found
            else container_insert_loop2 cmp c key slot prnt (get_slot c slot) True)"

definition container_insert2 ::
  "('k \<Rightarrow> 'a) \<Rightarrow> ('k \<Rightarrow> 'a \<Rightarrow> int) \<Rightarrow> 'a core \<Rightarrow> 'k \<Rightarrow> ('a core \<times> nat) option" where
  "container_insert2 mk cmp c key =
     (if root c = None then
        (let (c1, n) = make_node2 mk c key;
             c2 = c1\<lparr>root := Some n\<rparr>
         in do {
           r \<leftarrow> root c2;
           let c3 = set_color r Black c2;
           let c4 = c3\<lparr>count := count c3 + 1\<rparr>;
           r' \<leftarrow> root c4;
           Some (c4, r')
         })
      else do {
        (slot, prnt, whr) \<leftarrow> container_insert_loop2 cmp c key RootSlot None (root c) False;
        case whr of
          None \<Rightarrow>
            (let (c1, n) = make_node2 mk c key;
                 c2 = set_slot slot (Some n) c1;
                 c3 = set_parent n prnt c2;
                 c4 = set_color n Red c3;
                 c5 = c4\<lparr>count := count c4 + 1\<rparr>
             in do { c6 \<leftarrow> fixup_insert2 c5 n; Some (c6, n) })
        | Some w \<Rightarrow> Some (c, w)
      })"

text \<open>One step of the fix-up loop: the state it ends in, or the state and node it goes on with.\<close>

definition fixup_next :: "'a core \<Rightarrow> nat \<Rightarrow> ('a core + 'a core \<times> nat) option" where
  "fixup_next c z =
     (if root c = Some z then Some (Inl c)
      else case par c z of None \<Rightarrow> None
      | Some p \<Rightarrow> if col c p \<noteq> Red then Some (Inl c)
          else case par c p of None \<Rightarrow> None
          | Some g \<Rightarrow> map_option Inr
              (if Some p = lft c g then fixup_left c z g else fixup_right c z g))"

section \<open>The tree a memory holds\<close>

text \<open>
  A binary tree whose nodes carry their address, colour and payload. \<open>addrs\<close> and
  \<open>inorder\<close> list the addresses and the payloads in order, \<open>rootp\<close> is the pointer to the
  root. \<open>htree h up t\<close>: the memory \<open>h\<close> holds exactly the tree \<open>t\<close> below a parent \<open>up\<close>:
  at the address of every node, the parent arm, the colour, the payload and the two
  child arms are those of \<open>t\<close>.
\<close>

datatype 'a tree = Lf | Nd "'a tree" nat Color 'a "'a tree"

fun addrs :: "'a tree \<Rightarrow> nat list" where
  "addrs Lf = []"
| "addrs (Nd l a k x r) = addrs l @ a # addrs r"

fun inorder :: "'a tree \<Rightarrow> 'a list" where
  "inorder Lf = []"
| "inorder (Nd l a k x r) = inorder l @ x # inorder r"

fun rootp :: "'a tree \<Rightarrow> nat option" where
  "rootp Lf = None"
| "rootp (Nd l a k x r) = Some a"

fun rootcol :: "'a tree \<Rightarrow> Color" where
  "rootcol Lf = Black"
| "rootcol (Nd l a k x r) = k"

fun htree :: "(nat \<Rightarrow> 'a node) \<Rightarrow> nat option \<Rightarrow> 'a tree \<Rightarrow> bool" where
  "htree h up Lf = True"
| "htree h up (Nd l a k x r) =
     (parent (h a) = up \<and> color (h a) = k \<and> data (h a) = x
      \<and> left (h a) = rootp l \<and> right (h a) = rootp r
      \<and> htree h (Some a) l \<and> htree h (Some a) r)"

text \<open>
  A path from a subtree up to the root: each frame is an ancestor with its other
  subtree; \<open>plug\<close> puts the subtree back. \<open>hctx\<close> is \<open>htree\<close> for the ancestors, and
  \<open>zip_of c t fs\<close> says that the state \<open>c\<close> holds the tree \<open>plug t fs\<close>, split at \<open>t\<close>.
\<close>

datatype 'a frame = FL nat Color 'a "'a tree" | FR "'a tree" nat Color 'a

fun faddr :: "'a frame \<Rightarrow> nat" where
  "faddr (FL a k x r) = a"
| "faddr (FR l a k x) = a"

fun fcolor :: "'a frame \<Rightarrow> Color" where
  "fcolor (FL a k x r) = k"
| "fcolor (FR l a k x) = k"

fun fill :: "'a frame \<Rightarrow> 'a tree \<Rightarrow> 'a tree" where
  "fill (FL a k x r) t = Nd t a k x r"
| "fill (FR l a k x) t = Nd l a k x t"

fun plug :: "'a tree \<Rightarrow> 'a frame list \<Rightarrow> 'a tree" where
  "plug t [] = t"
| "plug t (f # fs) = plug (fill f t) fs"

fun ctop :: "'a frame list \<Rightarrow> nat option" where
  "ctop [] = None"
| "ctop (f # fs) = Some (faddr f)"

fun apre :: "'a frame list \<Rightarrow> nat list" where
  "apre [] = []"
| "apre (FL a k x r # fs) = apre fs"
| "apre (FR l a k x # fs) = apre fs @ addrs l @ [a]"

fun apost :: "'a frame list \<Rightarrow> nat list" where
  "apost [] = []"
| "apost (FL a k x r # fs) = a # addrs r @ apost fs"
| "apost (FR l a k x # fs) = apost fs"

fun dpre :: "'a frame list \<Rightarrow> 'a list" where
  "dpre [] = []"
| "dpre (FL a k x r # fs) = dpre fs"
| "dpre (FR l a k x # fs) = dpre fs @ inorder l @ [x]"

fun dpost :: "'a frame list \<Rightarrow> 'a list" where
  "dpost [] = []"
| "dpost (FL a k x r # fs) = x # inorder r @ dpost fs"
| "dpost (FR l a k x # fs) = dpost fs"

fun hctx :: "(nat \<Rightarrow> 'a node) \<Rightarrow> nat option \<Rightarrow> nat option \<Rightarrow> 'a frame list \<Rightarrow> bool" where
  "hctx h rt q [] = (rt = q)"
| "hctx h rt q (FL a k x r # fs) =
     (parent (h a) = ctop fs \<and> color (h a) = k \<and> data (h a) = x
      \<and> left (h a) = q \<and> right (h a) = rootp r \<and> htree h (Some a) r
      \<and> hctx h rt (Some a) fs)"
| "hctx h rt q (FR l a k x # fs) =
     (parent (h a) = ctop fs \<and> color (h a) = k \<and> data (h a) = x
      \<and> left (h a) = rootp l \<and> right (h a) = q \<and> htree h (Some a) l
      \<and> hctx h rt (Some a) fs)"

definition zip_of :: "'a core \<Rightarrow> 'a tree \<Rightarrow> 'a frame list \<Rightarrow> bool" where
  "zip_of c t fs \<longleftrightarrow>
     htree (mem c) (ctop fs) t \<and> hctx (mem c) (root c) (rootp t) fs
     \<and> distinct (apre fs @ addrs t @ apost fs)"

text \<open>
  \<open>tree_of c t\<close>: the state \<open>c\<close> holds the tree \<open>t\<close>, from \<open>root\<close>, with no node shared.
  \<open>frame A c c'\<close>: \<open>c'\<close> differs from \<open>c\<close> at most in the root and in the cells of \<open>A\<close>.
\<close>

definition tree_of :: "'a core \<Rightarrow> 'a tree \<Rightarrow> bool" where
  "tree_of c t \<longleftrightarrow> root c = rootp t \<and> htree (mem c) None t \<and> distinct (addrs t)"

definition frame :: "nat set \<Rightarrow> 'a core \<Rightarrow> 'a core \<Rightarrow> bool" where
  "frame A c c' \<longleftrightarrow>
     count c' = count c \<and> brk c' = brk c \<and> (\<forall>e. e \<notin> A \<longrightarrow> mem c' e = mem c e)"

text \<open>Recolouring the root of a tree, and a frame.\<close>

fun paint :: "Color \<Rightarrow> 'a tree \<Rightarrow> 'a tree" where
  "paint k Lf = Lf"
| "paint k (Nd l a k' x r) = Nd l a k x r"

fun fpaint :: "Color \<Rightarrow> 'a frame \<Rightarrow> 'a frame" where
  "fpaint k (FL a k' x r) = FL a k x r"
| "fpaint k (FR l a k' x) = FR l a k x"

text \<open>One iteration of the loop body on the zipper.\<close>

fun fix_step :: "'a tree \<Rightarrow> 'a frame list \<Rightarrow> 'a tree \<times> 'a frame list" where
  "fix_step t (FL p kp xp s # FL g kg xg u # fs) =
     (if rootcol u = Red then (Nd (Nd t p Black xp s) g Red xg (paint Black u), fs)
      else (t, FL p Black xp (Nd s g Red xg u) # fs))"
| "fix_step t (FR s p kp xp # FL g kg xg u # fs) =
     (if rootcol u = Red then (Nd (Nd s p Black xp t) g Red xg (paint Black u), fs)
      else (case t of
              Lf \<Rightarrow> (Nd (Nd s p kp xp t) g kg xg u, fs)
            | Nd b z kz xz cc \<Rightarrow> (Nd s p kp xp b, FL z Black xz (Nd cc g Red xg u) # fs)))"
| "fix_step t (FR s p kp xp # FR u g kg xg # fs) =
     (if rootcol u = Red then (Nd (paint Black u) g Red xg (Nd s p Black xp t), fs)
      else (t, FR (Nd u g Red xg s) p Black xp # fs))"
| "fix_step t (FL p kp xp s # FR u g kg xg # fs) =
     (if rootcol u = Red then (Nd (paint Black u) g Red xg (Nd t p Black xp s), fs)
      else (case t of
              Lf \<Rightarrow> (Nd u g kg xg (Nd t p kp xp s), fs)
            | Nd b z kz xz cc \<Rightarrow> (Nd cc p kp xp s, FR (Nd u g Red xg b) z Black xz # fs)))"
| "fix_step t fs = (t, fs)"

function fix_loop :: "'a tree \<Rightarrow> 'a frame list \<Rightarrow> 'a tree \<times> 'a frame list" where
  "fix_loop t [] = (t, [])"
| "fix_loop t [f] = (t, [f])"
| "fix_loop t (f1 # f2 # fs) =
     (if fcolor f1 = Red
      then fix_loop (fst (fix_step t (f1 # f2 # fs))) (snd (fix_step t (f1 # f2 # fs)))
      else (t, f1 # f2 # fs))"
  by pat_completeness auto

termination
proof (relation "measure (\<lambda>p. length (snd p))")
  show "wf (measure (\<lambda>p :: 'a tree \<times> 'a frame list. length (snd p)))" by simp
next
  fix t :: "'a tree" and f1 f2 :: "'a frame" and fs :: "'a frame list"
  assume "fcolor f1 = Red"
  have "length (snd (fix_step t (f1 # f2 # fs))) < Suc (Suc (length fs))"
    by (cases f1; cases f2; cases t) auto
  then show "((fst (fix_step t (f1 # f2 # fs)), snd (fix_step t (f1 # f2 # fs))), t, f1 # f2 # fs)
      \<in> measure (\<lambda>p. length (snd p))"
    by simp
qed

definition ctx_ok :: "'a frame list \<Rightarrow> bool" where
  "ctx_ok fs \<longleftrightarrow> fs = [] \<or> fcolor (last fs) = Black"

definition fix_tree :: "'a tree \<Rightarrow> 'a frame list \<Rightarrow> 'a tree" where
  "fix_tree t fs = paint Black (plug (fst (fix_loop t fs)) (snd (fix_loop t fs)))"

fun no_red_red :: "'a tree \<Rightarrow> bool" where
  "no_red_red Lf = True"
| "no_red_red (Nd l a k x r) =
     (no_red_red l \<and> no_red_red r \<and> (k = Red \<longrightarrow> rootcol l = Black \<and> rootcol r = Black))"

fun bh :: "'a tree \<Rightarrow> nat" where
  "bh Lf = 0"
| "bh (Nd l a k x r) = (if k = Black then Suc (bh l) else bh l)"

fun balanced :: "'a tree \<Rightarrow> bool" where
  "balanced Lf = True"
| "balanced (Nd l a k x r) = (balanced l \<and> balanced r \<and> bh l = bh r)"

fun fsib :: "'a frame \<Rightarrow> 'a tree" where
  "fsib (FL a k x r) = r"
| "fsib (FR l a k x) = l"

fun ctx_rr :: "'a frame list \<Rightarrow> bool" where
  "ctx_rr [] = True"
| "ctx_rr (f # fs) =
     (no_red_red (fsib f)
      \<and> (fcolor f = Red \<longrightarrow> rootcol (fsib f) = Black \<and> (fs \<noteq> [] \<longrightarrow> fcolor (hd fs) = Black))
      \<and> ctx_rr fs)"

definition fix_inv :: "'a tree \<Rightarrow> 'a frame list \<Rightarrow> bool" where
  "fix_inv t fs \<longleftrightarrow>
     rootcol t = Red \<and> no_red_red t \<and> ctx_rr fs \<and> ctx_ok fs \<and> balanced (plug t fs)"

text \<open>
  The descent of \<open>find\<close> and \<open>insert\<close> on the tree: the subtree it stops at and the path
  to it; \<open>cslot\<close> is the slot the path ends in.
\<close>

fun cslot :: "'a frame list \<Rightarrow> slot" where
  "cslot [] = RootSlot"
| "cslot (FL a k x r # fs) = LeftSlot a"
| "cslot (FR l a k x # fs) = RightSlot a"

fun descend :: "('k \<Rightarrow> 'a \<Rightarrow> int) \<Rightarrow> 'k \<Rightarrow> 'a tree \<Rightarrow> 'a frame list \<Rightarrow> 'a tree \<times> 'a frame list" where
  "descend cmp key Lf fs = (Lf, fs)"
| "descend cmp key (Nd l a k x r) fs =
     (if cmp key x < 0 then descend cmp key l (FL a k x r # fs)
      else if cmp key x > 0 then descend cmp key r (FR l a k x # fs)
      else (Nd l a k x r, fs))"

text \<open>The state of \<open>container<T>::insert\<close> when the new node is linked in, before the fix-up.\<close>

definition container_link :: "('k \<Rightarrow> 'a) \<Rightarrow> 'a core \<Rightarrow> 'k \<Rightarrow> slot \<Rightarrow> nat option \<Rightarrow> 'a core" where
  "container_link mk c key slot prnt =
     (let (c1, n) = make_node mk c key;
          c2 = set_slot slot (Some n) c1;
          c3 = set_parent n prnt c2;
          c4 = set_color n Red c3
      in c4\<lparr>count := count c4 + 1\<rparr>)"

text \<open>
  The red-black invariant: the root is black, no red node has a red child
  (\<open>no_red_red\<close>), and all paths to a null link have the same number of black nodes
  (\<open>balanced\<close>, with the black height \<open>bh\<close>).
\<close>

definition rb_inv :: "'a tree \<Rightarrow> bool" where
  "rb_inv t \<longleftrightarrow> rootcol t = Black \<and> no_red_red t \<and> balanced t"

text \<open>
  An admissible comparator: a three-way comparison that is a total order on the keys.
  \<open>keys_sorted\<close>: the payloads are strictly increasing in order.
\<close>

definition total_cmp :: "('k \<Rightarrow> 'k \<Rightarrow> int) \<Rightarrow> bool" where
  "total_cmp kcmp \<longleftrightarrow>
     (\<forall>a. kcmp a a = 0)
     \<and> (\<forall>a b. (kcmp a b < 0) = (0 < kcmp b a))
     \<and> (\<forall>a b c. kcmp a b < 0 \<longrightarrow> kcmp b c < 0 \<longrightarrow> kcmp a c < 0)
     \<and> (\<forall>a b c. kcmp a b = 0 \<longrightarrow> kcmp b c = 0 \<longrightarrow> kcmp a c = 0)"

definition key_lt :: "('k \<Rightarrow> 'k \<Rightarrow> int) \<Rightarrow> ('a \<Rightarrow> 'k) \<Rightarrow> 'a \<Rightarrow> 'a \<Rightarrow> bool" where
  "key_lt kcmp key_of x y \<longleftrightarrow> kcmp (key_of x) (key_of y) < 0"

definition keys_sorted :: "('k \<Rightarrow> 'k \<Rightarrow> int) \<Rightarrow> ('a \<Rightarrow> 'k) \<Rightarrow> 'a tree \<Rightarrow> bool" where
  "keys_sorted kcmp key_of t \<longleftrightarrow> sorted_wrt (key_lt kcmp key_of) (inorder t)"

text \<open>
  The state holds a red-black search tree; for the owning tree, moreover, its nodes
  lie below the allocation frontier and \<open>count\<close> is their number.
\<close>

definition winv :: "('k \<Rightarrow> 'k \<Rightarrow> int) \<Rightarrow> ('a \<Rightarrow> 'k) \<Rightarrow> 'a core \<Rightarrow> 'a tree \<Rightarrow> bool" where
  "winv kcmp key_of c t \<longleftrightarrow> tree_of c t \<and> rb_inv t \<and> keys_sorted kcmp key_of t"

definition container_inv :: "('k \<Rightarrow> 'k \<Rightarrow> int) \<Rightarrow> ('a \<Rightarrow> 'k) \<Rightarrow> 'a core \<Rightarrow> bool" where
  "container_inv kcmp key_of c \<longleftrightarrow>
     (\<exists>t. tree_of c t \<and> rb_inv t \<and> keys_sorted kcmp key_of t
          \<and> (\<forall>a\<in>set (addrs t). a < brk c) \<and> count c = of_nat (length (addrs t)))"

text \<open>
  A sequence of insertions into the owning tree; keys pairwise distinct under the
  comparator; the numbers of black nodes on the paths of a tree from the root to the
  null links.
\<close>

fun container_insert_all ::
  "('k \<Rightarrow> 'a) \<Rightarrow> ('k \<Rightarrow> 'a \<Rightarrow> int) \<Rightarrow> 'a core \<Rightarrow> 'k list \<Rightarrow> 'a core option" where
  "container_insert_all mk cmp c [] = Some c"
| "container_insert_all mk cmp c (k # ks) =
     (case container_insert mk cmp c k of
        None \<Rightarrow> None
      | Some (c', p) \<Rightarrow> container_insert_all mk cmp c' ks)"

fun distinct_keys :: "('k \<Rightarrow> 'k \<Rightarrow> int) \<Rightarrow> 'k list \<Rightarrow> bool" where
  "distinct_keys kcmp [] = True"
| "distinct_keys kcmp (k # ks) = ((\<forall>k'\<in>set ks. kcmp k k' \<noteq> 0) \<and> distinct_keys kcmp ks)"

fun black_counts :: "'a tree \<Rightarrow> nat list" where
  "black_counts Lf = [0]"
| "black_counts (Nd l a k x r) =
     map (\<lambda>n. if k = Black then Suc n else n) (black_counts l @ black_counts r)"

text \<open>
  A sequence of insertions into the embedded tree. \<open>fresh_link\<close>: the arms of the node
  are null, as \<open>link()\<close> constructs them.
\<close>

fun chain_insert_all :: "('a \<Rightarrow> 'a \<Rightarrow> int) \<Rightarrow> 'a core \<Rightarrow> nat list \<Rightarrow> 'a core option" where
  "chain_insert_all cmp c [] = Some c"
| "chain_insert_all cmp c (z # zs) =
     (case chain_insert cmp c z of
        None \<Rightarrow> None
      | Some (c', r) \<Rightarrow> chain_insert_all cmp c' zs)"

definition fresh_link :: "'a core \<Rightarrow> nat \<Rightarrow> bool" where
  "fresh_link c z \<longleftrightarrow> lft c z = None \<and> rgt c z = None \<and> par c z = None"

text \<open>\<open>compare(int, int)\<close> of \<open>impl.hxx\<close>.\<close>

definition compare :: "int \<Rightarrow> int \<Rightarrow> int" where
  "compare lhs rhs = (if lhs < rhs then -1 else if lhs > rhs then 1 else 0)"

text \<open>
  The constructors \<open>core() : root(0), count(0)\<close>, over a memory \<open>m\<close>, and
  \<open>link() : arm(), color(Red)\<close>.
\<close>

definition new_core :: "(nat \<Rightarrow> 'a node) \<Rightarrow> 'a core" where
  "new_core m = \<lparr>root = None, count = 0, mem = m, brk = 0\<rparr>"

definition new_link :: "'a \<Rightarrow> 'a node" where
  "new_link x = \<lparr>left = None, right = None, parent = None, color = Red, data = x\<rparr>"

text \<open>
  States for the examples: a raw memory; the owning tree after \<open>insert(5)\<close>; the embedded
  tree after the insertion of the node at address 0, where every node has the key 5.
\<close>

definition raw_memory :: "nat \<Rightarrow> int node" where
  "raw_memory a = new_link 0"

definition one_node :: "int core" where
  "one_node = \<lparr>root = Some 0, count = 1,
      mem = raw_memory(0 := \<lparr>left = None, right = None, parent = None, color = Black, data = 5\<rparr>),
      brk = 1\<rparr>"

definition two_links :: "int core" where
  "two_links = \<lparr>root = Some 0, count = 1,
      mem = (\<lambda>a. new_link 5)(0 := \<lparr>left = None, right = None, parent = None, color = Black, data = 5\<rparr>),
      brk = 0\<rparr>"

text \<open>The constructor of the second copy, \<open>core() : root{ }, count{ }\<close>.\<close>

definition new_core2 :: "(nat \<Rightarrow> 'a node) \<Rightarrow> 'a core" where
  "new_core2 m = \<lparr>root = None, count = 0, mem = m, brk = 0\<rparr>"

text \<open>
  Sequences of calls. A run yields, for every call, the pointer returned, the payload
  it points to and \<open>size()\<close> after the call; it is \<open>None\<close> when a call does not return.
\<close>

datatype 'k container_call = Find 'k | Insert 'k

datatype 'k chain_call = ChainFind 'k | ChainInsert nat

fun run_container ::
  "('k \<Rightarrow> 'a) \<Rightarrow> ('k \<Rightarrow> 'a \<Rightarrow> int) \<Rightarrow> 'a core \<Rightarrow> 'k container_call list
     \<Rightarrow> (nat option \<times> 'a option \<times> 32 word) list option" where
  "run_container mk cmp c [] = Some []"
| "run_container mk cmp c (Find k # cs) = do {
     r \<leftarrow> container_find cmp c k;
     rs \<leftarrow> run_container mk cmp c cs;
     Some ((r, map_option (dat c) r, size_core c) # rs)
   }"
| "run_container mk cmp c (Insert k # cs) = do {
     (c', p) \<leftarrow> container_insert mk cmp c k;
     rs \<leftarrow> run_container mk cmp c' cs;
     Some ((Some p, Some (dat c' p), size_core c') # rs)
   }"

fun run_container2 ::
  "('k \<Rightarrow> 'a) \<Rightarrow> ('k \<Rightarrow> 'a \<Rightarrow> int) \<Rightarrow> 'a core \<Rightarrow> 'k container_call list
     \<Rightarrow> (nat option \<times> 'a option \<times> 32 word) list option" where
  "run_container2 mk cmp c [] = Some []"
| "run_container2 mk cmp c (Find k # cs) = do {
     r \<leftarrow> container_find2 cmp c k;
     rs \<leftarrow> run_container2 mk cmp c cs;
     Some ((r, map_option (dat c) r, size_core c) # rs)
   }"
| "run_container2 mk cmp c (Insert k # cs) = do {
     (c', p) \<leftarrow> container_insert2 mk cmp c k;
     rs \<leftarrow> run_container2 mk cmp c' cs;
     Some ((Some p, Some (dat c' p), size_core c') # rs)
   }"

fun run_chain ::
  "('k \<Rightarrow> 'a \<Rightarrow> int) \<Rightarrow> ('a \<Rightarrow> 'a \<Rightarrow> int) \<Rightarrow> 'a core \<Rightarrow> 'k chain_call list
     \<Rightarrow> (nat option \<times> 'a option \<times> 32 word) list option" where
  "run_chain fcmp icmp c [] = Some []"
| "run_chain fcmp icmp c (ChainFind k # cs) = do {
     r \<leftarrow> chain_find fcmp c k;
     rs \<leftarrow> run_chain fcmp icmp c cs;
     Some ((r, map_option (dat c) r, size_core c) # rs)
   }"
| "run_chain fcmp icmp c (ChainInsert z # cs) = do {
     (c', p) \<leftarrow> chain_insert icmp c z;
     rs \<leftarrow> run_chain fcmp icmp c' cs;
     Some ((Some p, Some (dat c' p), size_core c') # rs)
   }"

fun run_chain2 ::
  "('k \<Rightarrow> 'a \<Rightarrow> int) \<Rightarrow> ('a \<Rightarrow> 'a \<Rightarrow> int) \<Rightarrow> 'a core \<Rightarrow> 'k chain_call list
     \<Rightarrow> (nat option \<times> 'a option \<times> 32 word) list option" where
  "run_chain2 fcmp icmp c [] = Some []"
| "run_chain2 fcmp icmp c (ChainFind k # cs) = do {
     r \<leftarrow> chain_find2 fcmp c k;
     rs \<leftarrow> run_chain2 fcmp icmp c cs;
     Some ((r, map_option (dat c) r, size_core c) # rs)
   }"
| "run_chain2 fcmp icmp c (ChainInsert z # cs) = do {
     (c', p) \<leftarrow> chain_insert2 icmp c z;
     rs \<leftarrow> run_chain2 fcmp icmp c' cs;
     Some ((Some p, Some (dat c' p), size_core c') # rs)
   }"

section \<open>The declarations of a scope by position (\<open>impl.hxx\<close>)\<close>

text \<open>
  \<open>scope_datum : link<scope_datum>\<close>: the payload of a node of the chain of declarations.
  \<open>spec\<close> is the set of specifiers as a number, \<open>decl\<close> the back-pointer to the
  declaration (null until it is set).
\<close>

record scope_datum =
  scope_pos :: int
  spec :: nat
  decl :: "nat option"

text \<open>
  Modelled from the spec: \<open>scope_datum::comp\<close> is declared in \<open>impl.hxx\<close> and defined in
  \<open>impl.cxx\<close>, which is not among the sources. The spec has a \<open>ScopeDatum\<close> "ordered by
  position inside a Decl-Sequence tree"; \<open>compare\<close> is the source's three-way comparison
  of two \<open>int\<close>.
\<close>

definition scope_datum_comp :: "scope_datum \<Rightarrow> scope_datum \<Rightarrow> int" where
  "scope_datum_comp lhs rhs = compare (scope_pos lhs) (scope_pos rhs)"

text \<open>
  Modelled from the spec: \<open>decl_sequence::size\<close>, \<open>insert\<close> and \<open>get\<close> are declared in
  \<open>impl.hxx\<close> and defined in \<open>impl.cxx\<close>. The state of a \<open>decl_sequence\<close> is its member
  \<open>decls\<close>, a \<open>chain<scope_datum>\<close>. \<open>size()\<close> is the size of the chain.
\<close>

definition decl_sequence_size :: "scope_datum core \<Rightarrow> 32 word" where
  "decl_sequence_size d = size_core d"

text \<open>
  Modelled from the spec: \<open>decl_sequence::insert\<close> (defined in \<open>impl.cxx\<close>) inserts the
  node into the chain \<open>decls\<close> with \<open>chain<Node>::insert\<close> under the position order.
\<close>

definition decl_sequence_insert :: "scope_datum core \<Rightarrow> nat \<Rightarrow> scope_datum core option" where
  "decl_sequence_insert d s = map_option fst (chain_insert scope_datum_comp d s)"

text \<open>Registering a list of declarations, one \<open>insert\<close> after the other.\<close>

fun decl_sequence_insert_all :: "scope_datum core \<Rightarrow> nat list \<Rightarrow> scope_datum core option" where
  "decl_sequence_insert_all d [] = Some d"
| "decl_sequence_insert_all d (s # ss) =
     (case decl_sequence_insert d s of
        None \<Rightarrow> None
      | Some d' \<Rightarrow> decl_sequence_insert_all d' ss)"

text \<open>
  Modelled from the spec: the traversal behind \<open>get\<close>. The nodes of the tree in order,
  left subtree, node, right subtree, by following the arms in memory; \<open>None\<close> when the
  walk does not end.
\<close>

partial_function (option) inorder_walk :: "'a core \<Rightarrow> nat option \<Rightarrow> nat list option" where
  [code]: "inorder_walk c lnk =
     (case lnk of
        None \<Rightarrow> Some []
      | Some a \<Rightarrow> do {
          ls \<leftarrow> inorder_walk c (lft c a);
          rs \<leftarrow> inorder_walk c (rgt c a);
          Some (ls @ a # rs)
        })"

text \<open>
  \<open>util::check\<close> (source): the pointer if it is not null, \<open>std::logic_error\<close> otherwise.
\<close>

definition check :: "nat option \<Rightarrow> error + nat" where
  "check ptr = (case ptr of None \<Rightarrow> Inl LogicError | Some p \<Rightarrow> Inr p)"

text \<open>
  Modelled from the spec: \<open>decl_sequence::get\<close>. An index outside \<open>[0, size())\<close> signals
  \<open>OutOfRange\<close>; inside, "\<open>get(i)\<close> retrieves the i-th-by-position declaration": the
  declaration of the \<open>i\<close>-th node of the tree in order.
\<close>

definition decl_sequence_get :: "scope_datum core \<Rightarrow> int \<Rightarrow> (error + nat) option" where
  "decl_sequence_get d i =
     (if i < 0 \<or> i \<ge> sint (decl_sequence_size d) then Some (Inl OutOfRange)
      else do {
        as \<leftarrow> inorder_walk d (root d);
        if nat i < length as then Some (check (decl (dat d (as ! nat i))))
        else Some (Inl OutOfRange)
      })"

text \<open>Three declarations, at the addresses 0, 1 and 2, with the positions 5, 2 and 8.\<close>

definition three_decls :: "nat \<Rightarrow> scope_datum node" where
  "three_decls a =
     new_link \<lparr>scope_pos = (if a = 0 then 5 else if a = 1 then 2 else 8), spec = 0,
               decl = Some (100 + a)\<rparr>"

section \<open>Overload sets and scopes (\<open>impl.hxx\<close>)\<close>

text \<open>
  \<open>overload_entry : link<overload_entry>\<close>: the payload of a node of the chain of entries
  of an overload set. \<open>etype\<close> is the \<open>node_id\<close> of the member \<open>type\<close>, \<open>declset\<close> the
  \<open>ref_sequence<ipr::Decl>\<close> of the declarations, each by its address.
\<close>

record overload_entry =
  etype :: int
  declset :: "nat list"

text \<open>
  \<open>node_compare\<close>: a type against an entry and an entry against an entry, both through
  \<open>compare\<close> on the \<open>node_id\<close> of the types.
\<close>

definition type_compare :: "int \<Rightarrow> overload_entry \<Rightarrow> int" where
  "type_compare t e = compare t (etype e)"

definition entry_compare :: "overload_entry \<Rightarrow> overload_entry \<Rightarrow> int" where
  "entry_compare l r = compare (etype l) (etype r)"

text \<open>
  \<open>impl::Overload\<close>: the \<open>node_id\<close> of its \<open>name\<close>, the chain \<open>entries\<close> (a \<open>core\<close> has
  the members \<open>root\<close> and \<open>count\<close>; the nodes are the master data, in the memory of the
  scope) and the vector \<open>masters\<close>.
\<close>

record Overload =
  name :: int
  entries_root :: "nat option"
  entries_count :: "32 word"
  masters :: "nat list"

text \<open>\<open>decl_rep<T>\<close>: a declaration; \<open>master_data\<close> is its \<open>decl_data.master_data\<close>.\<close>

record decl_rep =
  master_data :: nat

text \<open>
  \<open>impl::Scope\<close>: the name tree \<open>overloads\<close>, a \<open>container<impl::Overload>\<close>, and the two
  farms of a \<open>decl_factory\<close>: \<open>master_info\<close> (the memory the master data live in, with
  the next free address \<open>master_brk\<close>) and \<open>decls\<close> (a declaration's address is its index).
\<close>

record Scope =
  overloads :: "Overload core"
  master_info :: "nat \<Rightarrow> overload_entry node"
  master_brk :: nat
  decls :: "decl_rep list"

text \<open>
  Modelled from the spec: the constructor \<open>Overload(const ipr::Name&)\<close> is declared in
  \<open>impl.hxx\<close> and defined in \<open>impl.cxx\<close>, which is not among the sources. A new overload
  set has the name and no entry.
\<close>

definition new_Overload :: "int \<Rightarrow> Overload" where
  "new_Overload n = \<lparr>name = n, entries_root = None, entries_count = 0, masters = []\<rparr>"

text \<open>
  Modelled from the spec: the comparator of the name tree ("an Owning Tree keyed by
  name producing Overload objects"), which \<open>impl.cxx\<close> passes to \<open>insert\<close> and \<open>find\<close>.
\<close>

definition name_compare :: "int \<Rightarrow> Overload \<Rightarrow> int" where
  "name_compare n ovl = compare n (name ovl)"

text \<open>
  Modelled from the spec: the constructor of \<open>Scope\<close> (defined in \<open>impl.cxx\<close>); a new
  scope has no name and no declaration. \<open>om\<close> and \<open>em\<close> are the raw memories.
\<close>

definition new_Scope :: "(nat \<Rightarrow> Overload node) \<Rightarrow> (nat \<Rightarrow> overload_entry node) \<Rightarrow> Scope" where
  "new_Scope om em = \<lparr>overloads = new_core om, master_info = em, master_brk = 0, decls = []\<rparr>"

text \<open>
  The member \<open>entries\<close> of the overload set at the address \<open>ovl\<close>, together with the
  memory its nodes live in: the state the methods of \<open>chain<overload_entry>\<close> run on.
\<close>

definition entries :: "Scope \<Rightarrow> nat \<Rightarrow> overload_entry core" where
  "entries s ovl =
     \<lparr>root = entries_root (dat (overloads s) ovl), count = entries_count (dat (overloads s) ovl),
      mem = master_info s, brk = master_brk s\<rparr>"

text \<open>
  Modelled from the spec: \<open>Overload::lookup\<close> (defined in \<open>impl.cxx\<close>) finds the entry of
  a type in the type tree of the overload set.
\<close>

definition Overload_lookup :: "Scope \<Rightarrow> nat \<Rightarrow> int \<Rightarrow> nat option option" where
  "Overload_lookup s ovl t = chain_find type_compare (entries s ovl) t"



text \<open>
  Modelled from the spec: \<open>Overload::push_back\<close> (defined in \<open>impl.cxx\<close>): the new master
  data are "appended to both the type-tree and the insertion-ordered master list".
\<close>

definition Overload_push_back :: "Scope \<Rightarrow> nat \<Rightarrow> nat \<Rightarrow> Scope option" where
  "Overload_push_back s ovl m = do {
     (c, r) \<leftarrow> chain_insert entry_compare (entries s ovl) m;
     let ov = dat (overloads s) ovl;
     let ov' = ov\<lparr>entries_root := root c, entries_count := count c,
                   masters := masters ov @ [m]\<rparr>;
     Some (s\<lparr>overloads := set_data ovl ov' (overloads s), master_info := mem c\<rparr>)
   }"

text \<open>
  \<open>decls.make(mdd)\<close>: the farm constructs a \<open>decl_rep\<close>, whose constructor sets
  \<open>master_data\<close> and appends the new declaration to \<open>mdd->declset\<close>.
\<close>

definition make_decl_rep :: "Scope \<Rightarrow> nat \<Rightarrow> Scope \<times> nat" where
  "make_decl_rep s mdd =
     (let self = length (decls s);
          s1 = s\<lparr>decls := decls s @ [\<lparr>master_data = mdd\<rparr>]\<rparr>;
          e = data (master_info s1 mdd);
          e' = e\<lparr>declset := declset e @ [self]\<rparr>
      in (s1\<lparr>master_info := (master_info s1)(mdd := (master_info s1 mdd)\<lparr>data := e'\<rparr>)\<rparr>, self))"

text \<open>
  \<open>master_info.make(ovl, t)\<close>: the farm constructs the master data at the next free
  address: \<open>link()\<close> nulls the arms and colours the node red, \<open>overload_entry(t)\<close> sets the
  type and leaves the decl-set empty.
\<close>

definition make_master_decl_data :: "Scope \<Rightarrow> int \<Rightarrow> Scope \<times> nat" where
  "make_master_decl_data s t =
     (let m = master_brk s
      in (s\<lparr>master_info := (master_info s)(m := new_link \<lparr>etype = t, declset = []\<rparr>),
            master_brk := Suc m\<rparr>, m))"

text \<open>\<open>decl_factory<Interface>::declare\<close> and \<open>redeclare\<close>.\<close>

definition decl_factory_declare :: "Scope \<Rightarrow> nat \<Rightarrow> int \<Rightarrow> (Scope \<times> nat) option" where
  "decl_factory_declare s ovl t =
     (let (s1, mdata) = make_master_decl_data s t;
          (s2, master) = make_decl_rep s1 mdata
      in do { s3 \<leftarrow> Overload_push_back s2 ovl mdata; Some (s3, master) })"

definition decl_factory_redeclare :: "Scope \<Rightarrow> nat \<Rightarrow> Scope \<times> nat" where
  "decl_factory_redeclare s dcl = make_decl_rep s dcl"

text \<open>
  Modelled from the spec: \<open>Scope::make_var\<close> (defined in \<open>impl.cxx\<close>). "Scope's name-tree
  either finds an existing Overload or creates one; Overload's type-tree either finds
  an existing OverloadEntry or creates a fresh MasterDeclData + OverloadEntry"; with an
  entry found, "a new declaration object is created sharing the existing MasterDeclData".
\<close>

definition make_var :: "Scope \<Rightarrow> int \<Rightarrow> int \<Rightarrow> (Scope \<times> nat) option" where
  "make_var s n t = do {
     (c, ovl) \<leftarrow> container_insert new_Overload name_compare (overloads s) n;
     let s1 = s\<lparr>overloads := c\<rparr>;
     e \<leftarrow> Overload_lookup s1 ovl t;
     case e of
       None \<Rightarrow> decl_factory_declare s1 ovl t
     | Some m \<Rightarrow> Some (decl_factory_redeclare s1 m)
   }"


text \<open>
  Modelled from the spec: \<open>decl_rep<T>::master\<close> reads a pointer of the master data that
  is set in \<open>impl.cxx\<close>. Two declarations share their master exactly when they point to
  the same master data, so the master is identified by \<open>decl_data.master_data\<close>.
\<close>

definition master :: "Scope \<Rightarrow> nat \<Rightarrow> nat" where
  "master s d = master_data (decls s ! d)"

text \<open>Raw memories for the examples.\<close>

definition raw_overloads :: "nat \<Rightarrow> Overload node" where
  "raw_overloads a = new_link (new_Overload 0)"

definition raw_entries :: "nat \<Rightarrow> overload_entry node" where
  "raw_entries a = new_link \<lparr>etype = 0, declset = []\<rparr>"

text \<open>
  Modelled from the spec: the search of \<open>Scope::operator[]\<close> (defined in \<open>impl.cxx\<close>) in
  the name tree.
\<close>

definition Scope_lookup :: "Scope \<Rightarrow> int \<Rightarrow> nat option option" where
  "Scope_lookup s n = container_find name_compare (overloads s) n"

text \<open>
  What a lookup by name returns, a \<open>const ipr::Overload&\<close>: the member \<open>missing\<close> of the
  scope, an \<open>empty_overload\<close>, or an overload set that was found.
\<close>

datatype 'o lookup = Missing | Found 'o

text \<open>
  Modelled from the spec: \<open>empty_overload::size\<close> and \<open>get\<close> are declared in \<open>impl.hxx\<close>
  and defined in \<open>impl.cxx\<close>. "Looking up an undeclared name returns a zero-size
  Overload; indexing it at position 0 raises OutOfRange".
\<close>

definition empty_overload_size :: int where
  "empty_overload_size = 0"

text \<open>Modelled from the spec: \<open>empty_overload::get\<close>, see above.\<close>

definition empty_overload_get :: "int \<Rightarrow> error + nat" where
  "empty_overload_get i = Inl OutOfRange"

text \<open>
  The virtual calls \<open>size()\<close> and \<open>get(i)\<close> on the result of a lookup; \<open>sz\<close> and \<open>gt\<close> are
  those of the overload sets that can be found.
\<close>

definition lookup_size :: "('o \<Rightarrow> int) \<Rightarrow> 'o lookup \<Rightarrow> int" where
  "lookup_size sz r = (case r of Missing \<Rightarrow> empty_overload_size | Found ov \<Rightarrow> sz ov)"

definition lookup_get :: "('o \<Rightarrow> int \<Rightarrow> error + nat) \<Rightarrow> 'o lookup \<Rightarrow> int \<Rightarrow> error + nat" where
  "lookup_get gt r i = (case r of Missing \<Rightarrow> empty_overload_get i | Found ov \<Rightarrow> gt ov i)"

text \<open>
  Modelled from the spec: \<open>Scope::operator[]\<close> (defined in \<open>impl.cxx\<close>): "absence returns
  a shared, stateless, zero-size Overload singleton".
\<close>

definition Scope_subscript :: "Scope \<Rightarrow> int \<Rightarrow> nat lookup option" where
  "Scope_subscript s n =
     map_option (\<lambda>r. case r of None \<Rightarrow> Missing | Some p \<Rightarrow> Found p) (Scope_lookup s n)"

text \<open>A list of declarations (name, type) entering a scope, one after the other.\<close>

fun declare_all :: "Scope \<Rightarrow> (int \<times> int) list \<Rightarrow> Scope option" where
  "declare_all s [] = Some s"
| "declare_all s ((n, t) # ds) =
     (case make_var s n t of
        None \<Rightarrow> None
      | Some (s', d) \<Rightarrow> declare_all s' ds)"

text \<open>
  \<open>homogeneous_scope<Member>::operator[]\<close> (source): a linear search through the members,
  a \<open>val_sequence\<close>; a member has the \<open>node_id\<close> of its name and its own \<open>overload\<close>.
\<close>

record 'o member =
  member_name :: int
  overload :: 'o

function homogeneous_scope_loop :: "'o member list \<Rightarrow> int \<Rightarrow> int \<Rightarrow> int \<Rightarrow> error + 'o lookup" where
  "homogeneous_scope_loop ms n s i =
     (if i < s then
        (case val_sequence_get ms i of
           Inl e \<Rightarrow> Inl e
         | Inr m \<Rightarrow>
             if member_name m = n then Inr (Found (overload m))
             else homogeneous_scope_loop ms n s (i + 1))
      else Inr Missing)"
  by pat_completeness auto

termination
  by (relation "measure (\<lambda>(ms, n, s, i). nat (s - i))") auto

definition homogeneous_scope_subscript :: "'o member list \<Rightarrow> int \<Rightarrow> error + 'o lookup" where
  "homogeneous_scope_subscript ms n = homogeneous_scope_loop ms n (val_sequence_size ms) 0"

text \<open>The tree with the payload at address \<open>a\<close> replaced.\<close>

fun tset :: "nat \<Rightarrow> 'a \<Rightarrow> 'a tree \<Rightarrow> 'a tree" where
  "tset a x Lf = Lf"
| "tset a x (Nd l b k y r) = Nd (tset a x l) b k (if b = a then x else y) (tset a x r)"

text \<open>
  The name tree of a scope is a red-black search tree on the names, and holds no name
  outside \<open>N\<close>.
\<close>

definition names_inv :: "Scope \<Rightarrow> int set \<Rightarrow> bool" where
  "names_inv s N \<longleftrightarrow>
     (\<exists>t. winv compare name (overloads s) t \<and> (\<forall>a\<in>set (addrs t). a < brk (overloads s))
          \<and> name ` set (inorder t) \<subseteq> N)"

section \<open>Properties of the sequences\<close>

lemma val_sequence_get_in_range:
  "0 \<le> i \<Longrightarrow> i < val_sequence_size xs \<Longrightarrow> val_sequence_get xs i = Inr (xs ! nat i)"
  by (simp add: val_sequence_get_def)

lemma val_sequence_get_out_of_range:
  "i < 0 \<or> val_sequence_size xs \<le> i \<Longrightarrow> val_sequence_get xs i = Inl DomainError"
  by (auto simp: val_sequence_get_def)

text \<open>
  Claim C4. A sequence indexed inside \<open>[0, size())\<close> returns that element and signals
  an out-of-range condition outside; for a singleton decl-set \<open>get(0)\<close> returns the
  sole declaration. \<open>val_sequence\<close> does so (the two lemmas above), but
  \<open>singleton_declset::get\<close> tests \<open>i == 1\<close>: with \<open>size() == 1\<close> it throws at index
  \<open>0\<close>, the only index in range, and returns the declaration at index \<open>1\<close>, which is
  out of range.
\<close>

theorem singleton_declset_get_off_by_one:
  "singleton_declset_size s = 1
   \<and> singleton_declset_get s 0 = Inl DomainError
   \<and> singleton_declset_get s 1 = Inr (datum s)"
  by (simp add: singleton_declset_size_def singleton_declset_get_def)

section \<open>The two copies compute the same\<close>

lemma rotate_left2_eq: "rotate_left2 = rotate_left"
  by (simp add: fun_eq_iff rotate_left2_def rotate_left_def)

lemma rotate_right2_eq: "rotate_right2 = rotate_right"
  by (simp add: fun_eq_iff rotate_right2_def rotate_right_def)

lemma fixup_left2_eq: "fixup_left2 = fixup_left"
  apply (intro ext)
  unfolding fixup_left2_def fixup_left_def rotate_left2_eq rotate_right2_eq
  apply (rule refl)
  done

lemma fixup_right2_eq: "fixup_right2 = fixup_right"
  apply (intro ext)
  unfolding fixup_right2_def fixup_right_def rotate_left2_eq rotate_right2_eq
  apply (rule refl)
  done

lemma option_eqI:
  fixes f g :: "'b option"
  shows "(\<And>y. f = Some y \<Longrightarrow> g = Some y) \<Longrightarrow> (\<And>y. g = Some y \<Longrightarrow> f = Some y) \<Longrightarrow> f = g"
  by (cases f; cases g) auto

lemma fixup_next_body:
  "(if root c = Some z then Some c
      else do {
        p \<leftarrow> par c z;
        if col c p \<noteq> Red then Some c
        else do {
          g \<leftarrow> par c p;
          (c', z') \<leftarrow> (if Some p = lft c g then fixup_left c z g else fixup_right c z g);
          f c' z'
        }
      }) =
   (case fixup_next c z of None \<Rightarrow> None | Some (Inl r) \<Rightarrow> Some r
    | Some (Inr (c', z')) \<Rightarrow> f c' z')"
  unfolding fixup_next_def
  by (simp split: option.splits Option.bind_split prod.splits)

lemma next_mono:
  "(\<And>c' z'. f c' z' = Some y \<Longrightarrow> g c' z' = Some y) \<Longrightarrow>
   (case n of None \<Rightarrow> None | Some (Inl r) \<Rightarrow> Some r | Some (Inr (c', z')) \<Rightarrow> f c' z') = Some y \<Longrightarrow>
   (case n of None \<Rightarrow> None | Some (Inl r) \<Rightarrow> Some r | Some (Inr (c', z')) \<Rightarrow> g c' z') = Some y"
  by (auto split: option.splits sum.splits)

lemma fixup_loop_next:
  "fixup_loop c z = (case fixup_next c z of None \<Rightarrow> None | Some (Inl r) \<Rightarrow> Some r
    | Some (Inr (c', z')) \<Rightarrow> fixup_loop c' z')"
  apply (subst fixup_loop.simps)
  apply (rule fixup_next_body)
  done

lemma fixup_loop2_next:
  "fixup_loop2 c z = (case fixup_next c z of None \<Rightarrow> None | Some (Inl r) \<Rightarrow> Some r
    | Some (Inr (c', z')) \<Rightarrow> fixup_loop2 c' z')"
  apply (subst fixup_loop2.simps)
  unfolding fixup_left2_eq fixup_right2_eq
  apply (rule fixup_next_body)
  done

lemma fixup_loop2_le: "fixup_loop2 c z = Some y \<Longrightarrow> fixup_loop c z = Some y"
proof (induction rule: fixup_loop2.raw_induct[rotated -1, consumes 1])
  case (1 f c z y)
  from 1(2) have "(case fixup_next c z of None \<Rightarrow> None | Some (Inl r) \<Rightarrow> Some r
    | Some (Inr (c', z')) \<Rightarrow> f c' z') = Some y"
    unfolding fixup_left2_eq fixup_right2_eq fixup_next_body .
  from next_mono[of f y fixup_loop, OF 1(1) this] show ?case
    by (subst fixup_loop_next)
qed

lemma fixup_loop_le: "fixup_loop c z = Some y \<Longrightarrow> fixup_loop2 c z = Some y"
proof (induction rule: fixup_loop.raw_induct[rotated -1, consumes 1])
  case (1 f c z y)
  from 1(2) have "(case fixup_next c z of None \<Rightarrow> None | Some (Inl r) \<Rightarrow> Some r
    | Some (Inr (c', z')) \<Rightarrow> f c' z') = Some y"
    unfolding fixup_next_body .
  from next_mono[of f y fixup_loop2, OF 1(1) this] show ?case
    by (subst fixup_loop2_next)
qed

lemma fixup_loop2_eq: "fixup_loop2 = fixup_loop"
  apply (intro ext)
  apply (rule option_eqI)
   apply (erule fixup_loop2_le)
  apply (erule fixup_loop_le)
  done

lemma fixup_insert2_eq: "fixup_insert2 = fixup_insert"
  by (simp add: fun_eq_iff fixup_insert2_def fixup_insert_def fixup_loop2_eq)

lemma chain_find_loop2_le: "chain_find_loop2 cmp c key result found = Some y \<Longrightarrow> chain_find_loop cmp c key result found = Some y"
proof (induction rule: chain_find_loop2.raw_induct[rotated -1, consumes 1])
  case (1 f cmp c key result found y)
  from 1(2) show ?case
    by (subst chain_find_loop.simps)
      (auto split: option.splits if_splits simp: Let_def intro: 1(1))
qed

lemma chain_find_loop_le: "chain_find_loop cmp c key result found = Some y \<Longrightarrow> chain_find_loop2 cmp c key result found = Some y"
proof (induction rule: chain_find_loop.raw_induct[rotated -1, consumes 1])
  case (1 f cmp c key result found y)
  from 1(2) show ?case
    by (subst chain_find_loop2.simps)
      (auto split: option.splits if_splits simp: Let_def intro: 1(1))
qed

lemma chain_find_loop2_eq: "chain_find_loop2 = chain_find_loop"
  apply (intro ext)
  apply (rule option_eqI)
   apply (erule chain_find_loop2_le)
  apply (erule chain_find_loop_le)
  done

lemma chain_insert_loop2_le: "chain_insert_loop2 cmp c z slot up found = Some y \<Longrightarrow> chain_insert_loop cmp c z slot up found = Some y"
proof (induction rule: chain_insert_loop2.raw_induct[rotated -1, consumes 1])
  case (1 f cmp c z slot up found y)
  from 1(2) show ?case
    by (subst chain_insert_loop.simps)
      (auto split: option.splits if_splits simp: Let_def intro: 1(1))
qed

lemma chain_insert_loop_le: "chain_insert_loop cmp c z slot up found = Some y \<Longrightarrow> chain_insert_loop2 cmp c z slot up found = Some y"
proof (induction rule: chain_insert_loop.raw_induct[rotated -1, consumes 1])
  case (1 f cmp c z slot up found y)
  from 1(2) show ?case
    by (subst chain_insert_loop2.simps)
      (auto split: option.splits if_splits simp: Let_def intro: 1(1))
qed

lemma chain_insert_loop2_eq: "chain_insert_loop2 = chain_insert_loop"
  apply (intro ext)
  apply (rule option_eqI)
   apply (erule chain_insert_loop2_le)
  apply (erule chain_insert_loop_le)
  done

lemma container_find_loop2_le:
  "container_find_loop2 cmp c key x = Some y \<Longrightarrow> container_find_loop cmp c key x = Some y"
proof (induction rule: container_find_loop2.raw_induct[rotated -1, consumes 1])
  case (1 f cmp c key x y)
  from 1(2) show ?case
    by (subst container_find_loop.simps)
       (auto split: option.splits if_splits simp: Let_def intro: 1(1))
qed

lemma container_find_loop_le:
  "container_find_loop cmp c key x = Some y \<Longrightarrow> container_find_loop2 cmp c key x = Some y"
proof (induction rule: container_find_loop.raw_induct[rotated -1, consumes 1])
  case (1 f cmp c key x y)
  from 1(2) show ?case
    by (subst container_find_loop2.simps)
       (auto split: option.splits if_splits simp: Let_def intro: 1(1))
qed

lemma container_find_loop2_eq: "container_find_loop2 = container_find_loop"
  apply (intro ext)
  apply (rule option_eqI)
   apply (erule container_find_loop2_le)
  apply (erule container_find_loop_le)
  done

lemma container_insert_loop2_le: "container_insert_loop2 cmp c key slot prnt whr found = Some y \<Longrightarrow> container_insert_loop cmp c key slot prnt whr found = Some y"
proof (induction rule: container_insert_loop2.raw_induct[rotated -1, consumes 1])
  case (1 f cmp c key slot prnt whr found y)
  from 1(2) show ?case
    by (subst container_insert_loop.simps)
      (auto split: option.splits if_splits simp: Let_def intro: 1(1))
qed

lemma container_insert_loop_le: "container_insert_loop cmp c key slot prnt whr found = Some y \<Longrightarrow> container_insert_loop2 cmp c key slot prnt whr found = Some y"
proof (induction rule: container_insert_loop.raw_induct[rotated -1, consumes 1])
  case (1 f cmp c key slot prnt whr found y)
  from 1(2) show ?case
    by (subst container_insert_loop2.simps)
      (auto split: option.splits if_splits simp: Let_def intro: 1(1))
qed

lemma container_insert_loop2_eq: "container_insert_loop2 = container_insert_loop"
  apply (intro ext)
  apply (rule option_eqI)
   apply (erule container_insert_loop2_le)
  apply (erule container_insert_loop_le)
  done

lemma chain_find2_eq: "chain_find2 = chain_find"
  by (simp add: fun_eq_iff chain_find2_def chain_find_def chain_find_loop2_eq)

lemma chain_insert2_eq: "chain_insert2 = chain_insert"
  apply (intro ext)
  unfolding chain_insert2_def chain_insert_def chain_insert_loop2_eq fixup_insert2_eq
  apply (rule refl)
  done

lemma make_node2_eq: "make_node2 = make_node"
  by (auto simp: fun_eq_iff make_node2_def make_node_def allocate2_def allocate_def Let_def
      set_data_def set_left_def set_right_def set_parent_def)

lemma container_find2_eq: "container_find2 = container_find"
  by (simp add: fun_eq_iff container_find2_def container_find_def container_find_loop2_eq)

lemma container_insert2_eq: "container_insert2 = container_insert"
  apply (intro ext)
  unfolding container_insert2_def container_insert_def container_insert_loop2_eq
    fixup_insert2_eq make_node2_eq
  apply (rule refl)
  done

section \<open>Rotations and the fix-up on the heap\<close>

lemma frame_refl [simp]: "frame A c c"
  by (simp add: frame_def)

lemma frame_trans: "frame A c c1 \<Longrightarrow> frame A c1 c2 \<Longrightarrow> frame A c c2"
  by (simp add: frame_def)

lemma frame_mono: "frame A c c' \<Longrightarrow> A \<subseteq> B \<Longrightarrow> frame B c c'"
  by (auto simp: frame_def)

lemma frame_set_color: "a \<in> A \<Longrightarrow> frame A c (set_color a k c)"
  by (simp add: frame_def set_color_def)

lemma Color_neq [simp]: "(k \<noteq> Red) = (k = Black)" "(k \<noteq> Black) = (k = Red)"
  by (cases k; simp)+

lemma addrs_plug: "addrs (plug t fs) = apre fs @ addrs t @ apost fs"
  by (induction fs arbitrary: t rule: apre.induct) auto

lemma inorder_plug: "inorder (plug t fs) = dpre fs @ inorder t @ dpost fs"
  by (induction fs arbitrary: t rule: dpre.induct) auto

lemma rootp_addrs: "rootp t = Some a \<Longrightarrow> a \<in> set (addrs t)"
  by (cases t) auto

lemma rootp_notin [simp]: "a \<notin> set (addrs t) \<Longrightarrow> rootp t \<noteq> Some a"
  using rootp_addrs by fastforce

lemma rootp_notin' [simp]: "a \<notin> set (addrs t) \<Longrightarrow> Some a \<noteq> rootp t"
  by (cases t) auto

lemma htree_upd [simp]: "a \<notin> set (addrs t) \<Longrightarrow> htree (h(a := n)) up t = htree h up t"
  by (induction t arbitrary: up) auto

lemma hctx_upd [simp]:
  "a \<notin> set (apre fs) \<Longrightarrow> a \<notin> set (apost fs) \<Longrightarrow> hctx (h(a := n)) rt q fs = hctx h rt q fs"
  by (induction h rt q fs rule: hctx.induct) auto

lemma zip_up: "zip_of c t (f # fs) = zip_of c (fill f t) fs"
  by (cases f) (auto simp: zip_of_def)

lemma zip_nil: "zip_of c t [] = tree_of c t"
  by (auto simp: zip_of_def tree_of_def)

lemma zip_plug: "zip_of c t fs = tree_of c (plug t fs)"
  by (induction fs arbitrary: t) (simp_all add: zip_nil zip_up)

lemma htree_parent: "htree h up t \<Longrightarrow> rootp t = Some a \<Longrightarrow> parent (h a) = up"
  by (cases t) auto

lemma htree_reparent:
  "htree h up (Nd l a k x r) \<Longrightarrow> a \<notin> set (addrs l) \<Longrightarrow> a \<notin> set (addrs r) \<Longrightarrow>
   htree (h(a := (h a)\<lparr>parent := up'\<rparr>)) up' (Nd l a k x r)"
  by simp

lemma rotate_left_zip:
  assumes "zip_of c (Nd a x kx dx (Nd b y ky dy r)) fs"
  shows "\<exists>c'. rotate_left c x = Some c'
           \<and> zip_of c' (Nd (Nd a x kx dx b) y ky dy r) fs
           \<and> frame (set (addrs (plug (Nd a x kx dx (Nd b y ky dy r)) fs))) c c'"
proof (cases fs)
  case Nil
  with assms show ?thesis
    by (cases b)
      (auto simp: zip_of_def rotate_left_def set_left_def set_right_def set_parent_def Let_def
        frame_def)
next
  case (Cons f fs')
  with assms show ?thesis
    by (cases f; cases b)
      (auto simp: zip_of_def rotate_left_def set_left_def set_right_def set_parent_def Let_def
        frame_def addrs_plug)
qed

lemma rotate_right_zip:
  assumes "zip_of c (Nd (Nd a y ky dy b) x kx dx r) fs"
  shows "\<exists>c'. rotate_right c x = Some c'
           \<and> zip_of c' (Nd a y ky dy (Nd b x kx dx r)) fs
           \<and> frame (set (addrs (plug (Nd (Nd a y ky dy b) x kx dx r) fs))) c c'"
proof (cases fs)
  case Nil
  with assms show ?thesis
    by (cases b)
      (auto simp: zip_of_def rotate_right_def set_left_def set_right_def set_parent_def Let_def
        frame_def)
next
  case (Cons f fs')
  with assms show ?thesis
    by (cases f; cases b)
      (auto simp: zip_of_def rotate_right_def set_left_def set_right_def set_parent_def Let_def
        frame_def addrs_plug)
qed

lemma fixup_left_red:
  assumes Z: "zip_of c t (f # FL g kg xg u # fs)" and T: "rootp t = Some z"
    and U: "rootcol u = Red"
  shows "\<exists>c'. fixup_left c z g = Some (c', g)
           \<and> zip_of c' (Nd (fill (fpaint Black f) t) g Red xg (paint Black u)) fs
           \<and> frame (set (addrs (plug t (f # FL g kg xg u # fs)))) c c'"
  using assms
  by (cases u; cases f; cases t)
    (auto simp: fixup_left_def zip_of_def is_red_def set_color_def Let_def frame_def addrs_plug)

lemma fixup_right_red:
  assumes Z: "zip_of c t (f # FR u g kg xg # fs)" and T: "rootp t = Some z"
    and U: "rootcol u = Red"
  shows "\<exists>c'. fixup_right c z g = Some (c', g)
           \<and> zip_of c' (Nd (paint Black u) g Red xg (fill (fpaint Black f) t)) fs
           \<and> frame (set (addrs (plug t (f # FR u g kg xg # fs)))) c c'"
  using assms
  by (cases u; cases f; cases t)
    (auto simp: fixup_right_def zip_of_def is_red_def set_color_def Let_def frame_def addrs_plug)

lemma fixup_left_LL:
  assumes Z: "zip_of c t (FL p kp xp s # FL g kg xg u # fs)" and T: "rootp t = Some z"
    and U: "rootcol u = Black"
  shows "\<exists>c'. fixup_left c z g = Some (c', z)
           \<and> zip_of c' t (FL p Black xp (Nd s g Red xg u) # fs)
           \<and> frame (set (addrs (plug t (FL p kp xp s # FL g kg xg u # fs)))) c c'"
proof -
  let ?A = "set (addrs (plug t (FL p kp xp s # FL g kg xg u # fs)))"
  from Z have Z1: "zip_of c (Nd (Nd t p kp xp s) g kg xg u) fs"
    by (simp add: zip_up)
  let ?c2 = "set_color p Black c"
  let ?c3 = "set_color g Red ?c2"
  from Z1 T have Z3: "zip_of ?c3 (Nd (Nd t p Black xp s) g Red xg u) fs"
    by (auto simp: zip_of_def set_color_def)
  have F3: "frame ?A c ?c3"
    by (auto simp: frame_def set_color_def addrs_plug)
  from rotate_right_zip[OF Z3] obtain c4 where
    R: "rotate_right ?c3 g = Some c4" and
    Z4: "zip_of c4 (Nd t p Black xp (Nd s g Red xg u)) fs" and
    F4: "frame ?A ?c3 c4"
    by (auto simp: addrs_plug)
  from Z T U have rd: "par c z = Some p" "rgt c p \<noteq> Some z" "par c p = Some g"
    "\<not> is_red c (rgt c g)"
    by (cases u; cases t; auto simp: zip_of_def is_red_def)+
  from Z T have ne: "z \<noteq> p" "z \<noteq> g" "p \<noteq> g"
    by (cases t; auto simp: zip_of_def)+
  from rd ne R have "fixup_left c z g = Some (c4, z)"
    by (simp add: fixup_left_def Let_def set_color_def)
  with Z4 frame_trans[OF F3 F4] show ?thesis by (simp add: zip_up)
qed

lemma fixup_left_LR:
  assumes Z: "zip_of c (Nd b z kz xz cc) (FR s p kp xp # FL g kg xg u # fs)"
    and U: "rootcol u = Black"
  shows "\<exists>c'. fixup_left c z g = Some (c', p)
           \<and> zip_of c' (Nd s p kp xp b) (FL z Black xz (Nd cc g Red xg u) # fs)
           \<and> frame (set (addrs (plug (Nd b z kz xz cc) (FR s p kp xp # FL g kg xg u # fs)))) c c'"
proof -
  let ?A = "set (addrs (plug (Nd b z kz xz cc) (FR s p kp xp # FL g kg xg u # fs)))"
  from Z have Z1: "zip_of c (Nd s p kp xp (Nd b z kz xz cc)) (FL g kg xg u # fs)"
    by (simp add: zip_up)
  from rotate_left_zip[OF Z1] obtain c1 where
    R1: "rotate_left c p = Some c1" and
    Z2: "zip_of c1 (Nd (Nd s p kp xp b) z kz xz cc) (FL g kg xg u # fs)" and
    F1: "frame ?A c c1"
    by (auto simp: addrs_plug)
  let ?c2 = "set_color z Black c1"
  let ?c3 = "set_color g Red ?c2"
  from Z2 have Z3: "zip_of ?c3 (Nd (Nd (Nd s p kp xp b) z Black xz cc) g Red xg u) fs"
    by (auto simp: zip_of_def set_color_def)
  have F3: "frame ?A c1 ?c3"
    by (auto simp: frame_def set_color_def addrs_plug)
  from rotate_right_zip[OF Z3] obtain c4 where
    R: "rotate_right ?c3 g = Some c4" and
    Z4: "zip_of c4 (Nd (Nd s p kp xp b) z Black xz (Nd cc g Red xg u)) fs" and
    F4: "frame ?A ?c3 c4"
    by (auto simp: addrs_plug)
  from Z U have rd: "par c z = Some p" "rgt c p = Some z"
    "\<not> is_red c (rgt c g)"
    by (cases u; auto simp: zip_of_def is_red_def)+
  from Z2 have rd1: "par c1 p = Some z" "par c1 z = Some g"
    by (auto simp: zip_of_def)
  from Z have ne: "z \<noteq> p" "z \<noteq> g" "p \<noteq> g"
    by (auto simp: zip_of_def)
  from rd rd1 ne R1 R have "fixup_left c z g = Some (c4, p)"
    by (simp add: fixup_left_def Let_def set_color_def)
  with Z4 frame_trans[OF F1 frame_trans[OF F3 F4]] show ?thesis by (simp add: zip_up)
qed

lemma fixup_right_RR:
  assumes Z: "zip_of c t (FR s p kp xp # FR u g kg xg # fs)" and T: "rootp t = Some z"
    and U: "rootcol u = Black"
  shows "\<exists>c'. fixup_right c z g = Some (c', z)
           \<and> zip_of c' t (FR (Nd u g Red xg s) p Black xp # fs)
           \<and> frame (set (addrs (plug t (FR s p kp xp # FR u g kg xg # fs)))) c c'"
proof -
  let ?A = "set (addrs (plug t (FR s p kp xp # FR u g kg xg # fs)))"
  from Z have Z1: "zip_of c (Nd u g kg xg (Nd s p kp xp t)) fs"
    by (simp add: zip_up)
  let ?c2 = "set_color p Black c"
  let ?c3 = "set_color g Red ?c2"
  from Z1 T have Z3: "zip_of ?c3 (Nd u g Red xg (Nd s p Black xp t)) fs"
    by (auto simp: zip_of_def set_color_def)
  have F3: "frame ?A c ?c3"
    by (auto simp: frame_def set_color_def addrs_plug)
  from rotate_left_zip[OF Z3] obtain c4 where
    R: "rotate_left ?c3 g = Some c4" and
    Z4: "zip_of c4 (Nd (Nd u g Red xg s) p Black xp t) fs" and
    F4: "frame ?A ?c3 c4"
    by (auto simp: addrs_plug)
  from Z T U have rd: "par c z = Some p" "lft c p \<noteq> Some z" "par c p = Some g"
    "\<not> is_red c (lft c g)"
    by (cases u; cases t; auto simp: zip_of_def is_red_def)+
  from Z T have ne: "z \<noteq> p" "z \<noteq> g" "p \<noteq> g"
    by (cases t; auto simp: zip_of_def)+
  from rd ne R have "fixup_right c z g = Some (c4, z)"
    by (simp add: fixup_right_def Let_def set_color_def)
  with Z4 frame_trans[OF F3 F4] show ?thesis by (simp add: zip_up)
qed

lemma fixup_right_RL:
  assumes Z: "zip_of c (Nd b z kz xz cc) (FL p kp xp s # FR u g kg xg # fs)"
    and U: "rootcol u = Black"
  shows "\<exists>c'. fixup_right c z g = Some (c', p)
           \<and> zip_of c' (Nd cc p kp xp s) (FR (Nd u g Red xg b) z Black xz # fs)
           \<and> frame (set (addrs (plug (Nd b z kz xz cc) (FL p kp xp s # FR u g kg xg # fs)))) c c'"
proof -
  let ?A = "set (addrs (plug (Nd b z kz xz cc) (FL p kp xp s # FR u g kg xg # fs)))"
  from Z have Z1: "zip_of c (Nd (Nd b z kz xz cc) p kp xp s) (FR u g kg xg # fs)"
    by (simp add: zip_up)
  from rotate_right_zip[OF Z1] obtain c1 where
    R1: "rotate_right c p = Some c1" and
    Z2: "zip_of c1 (Nd b z kz xz (Nd cc p kp xp s)) (FR u g kg xg # fs)" and
    F1: "frame ?A c c1"
    by (auto simp: addrs_plug)
  let ?c2 = "set_color z Black c1"
  let ?c3 = "set_color g Red ?c2"
  from Z2 have Z3: "zip_of ?c3 (Nd u g Red xg (Nd b z Black xz (Nd cc p kp xp s))) fs"
    by (auto simp: zip_of_def set_color_def)
  have F3: "frame ?A c1 ?c3"
    by (auto simp: frame_def set_color_def addrs_plug)
  from rotate_left_zip[OF Z3] obtain c4 where
    R: "rotate_left ?c3 g = Some c4" and
    Z4: "zip_of c4 (Nd (Nd u g Red xg b) z Black xz (Nd cc p kp xp s)) fs" and
    F4: "frame ?A ?c3 c4"
    by (auto simp: addrs_plug)
  from Z U have rd: "par c z = Some p" "lft c p = Some z"
    "\<not> is_red c (lft c g)"
    by (cases u; auto simp: zip_of_def is_red_def)+
  from Z2 have rd1: "par c1 p = Some z" "par c1 z = Some g"
    by (auto simp: zip_of_def)
  from Z have ne: "z \<noteq> p" "z \<noteq> g" "p \<noteq> g"
    by (auto simp: zip_of_def)
  from rd rd1 ne R1 R have "fixup_right c z g = Some (c4, p)"
    by (simp add: fixup_right_def Let_def set_color_def)
  with Z4 frame_trans[OF F1 frame_trans[OF F3 F4]] show ?thesis by (simp add: zip_up)
qed

lemma rootcol_cases: "rootcol u = Red \<or> rootcol u = Black"
  by (cases "rootcol u") auto

lemma fixup_body_sim:
  assumes Z: "zip_of c t (f1 # f2 # fs)" and T: "rootp t = Some z"
  shows "\<exists>c' z'. (if Some (faddr f1) = lft c (faddr f2) then fixup_left c z (faddr f2)
                   else fixup_right c z (faddr f2)) = Some (c', z')
           \<and> zip_of c' (fst (fix_step t (f1 # f2 # fs))) (snd (fix_step t (f1 # f2 # fs)))
           \<and> rootp (fst (fix_step t (f1 # f2 # fs))) = Some z'
           \<and> frame (set (addrs (plug t (f1 # f2 # fs)))) c c'"
proof (cases f2)
  case (FL g kg xg u)
  from Z FL have L: "Some (faddr f1) = lft c (faddr f2)"
    by (cases f1) (auto simp: zip_of_def)
  show ?thesis
  proof (cases "rootcol u = Red")
    case True
    from fixup_left_red[OF Z[unfolded FL] T True] L FL True show ?thesis
      by (cases f1) auto
  next
    case False
    then have B: "rootcol u = Black" using rootcol_cases by blast
    show ?thesis
    proof (cases f1)
      case (FL p kp xp s)
      from fixup_left_LL[OF Z[unfolded FL \<open>f2 = _\<close>] T B] L FL \<open>f2 = _\<close> B T show ?thesis
        by auto
    next
      case (FR s p kp xp)
      from T obtain b kz xz cc where t: "t = Nd b z kz xz cc" by (cases t) auto
      from fixup_left_LR[OF Z[unfolded FR \<open>f2 = _\<close> t] B] L FR \<open>f2 = _\<close> B t show ?thesis
        by auto
    qed
  qed
next
  case (FR u g kg xg)
  from Z FR have L: "Some (faddr f1) \<noteq> lft c (faddr f2)"
    by (cases f1; cases t) (auto simp: zip_of_def)
  show ?thesis
  proof (cases "rootcol u = Red")
    case True
    from fixup_right_red[OF Z[unfolded FR] T True] L FR True show ?thesis
      by (cases f1) auto
  next
    case False
    then have B: "rootcol u = Black" using rootcol_cases by blast
    show ?thesis
    proof (cases f1)
      case (FR s p kp xp)
      from fixup_right_RR[OF Z[unfolded FR \<open>f2 = _\<close>] T B] L FR \<open>f2 = _\<close> B T show ?thesis
        by auto
    next
      case (FL p kp xp s)
      from T obtain b kz xz cc where t: "t = Nd b z kz xz cc" by (cases t) auto
      from fixup_right_RL[OF Z[unfolded FL \<open>f2 = _\<close> t] B] L FL \<open>f2 = _\<close> B t show ?thesis
        by auto
    qed
  qed
qed

lemma ctx_ok_step:
  "ctx_ok (f1 # f2 # fs) \<Longrightarrow> ctx_ok (snd (fix_step t (f1 # f2 # fs)))"
  by (cases f1; cases f2; cases t) (auto simp: ctx_ok_def split: if_splits)

lemma hctx_root: "hctx h rt q fs \<Longrightarrow> fs \<noteq> [] \<Longrightarrow> rt = Some (faddr (last fs))"
  by (induction h rt q fs rule: hctx.induct) (auto split: if_splits)

lemma faddr_in: "f \<in> set fs \<Longrightarrow> faddr f \<in> set (apre fs) \<union> set (apost fs)"
  by (induction fs rule: apre.induct) auto

lemma zip_root_ne:
  assumes "zip_of c t fs" "rootp t = Some z" "fs \<noteq> []"
  shows "root c \<noteq> Some z"
proof -
  from assms have r: "root c = Some (faddr (last fs))"
    by (auto simp: zip_of_def dest: hctx_root)
  from assms(3) have "faddr (last fs) \<in> set (apre fs) \<union> set (apost fs)"
    by (intro faddr_in) simp
  moreover from assms have "z \<in> set (addrs t)" by (simp add: rootp_addrs)
  moreover from assms have "distinct (apre fs @ addrs t @ apost fs)" by (simp add: zip_of_def)
  ultimately show ?thesis using r by auto
qed

lemma zip_reads:
  assumes "zip_of c t (f # fs)" "rootp t = Some z"
  shows "par c z = Some (faddr f)" "col c (faddr f) = fcolor f" "par c (faddr f) = ctop fs"
  using assms by (cases f; cases t; auto simp: zip_of_def)+

lemma fix_step_rootp:
  "rootp t \<noteq> None \<Longrightarrow> rootp (fst (fix_step t fs)) \<noteq> None"
  by (induction t fs rule: fix_step.induct) (auto split: tree.splits)

lemma fix_loop_rootp:
  "rootp t \<noteq> None \<Longrightarrow> rootp (fst (fix_loop t fs)) \<noteq> None"
  by (induction t fs rule: fix_loop.induct) (auto simp: fix_step_rootp simp del: fix_step.simps)

lemma plug_rootp: "rootp t \<noteq> None \<Longrightarrow> rootp (plug t fs) \<noteq> None"
  by (induction fs arbitrary: t) (auto, case_tac a, auto)

lemma tree_of_paint:
  "tree_of c t \<Longrightarrow> root c = Some r \<Longrightarrow> tree_of (set_color r k c) (paint k t)"
  by (cases t) (auto simp: tree_of_def set_color_def)

lemma no_red_red_plug:
  "no_red_red (plug t fs) \<longleftrightarrow>
     no_red_red t \<and> ctx_rr fs \<and> (rootcol t = Red \<longrightarrow> fs \<noteq> [] \<longrightarrow> fcolor (hd fs) = Black)"
proof (induction fs arbitrary: t)
  case Nil
  show ?case by simp
next
  case (Cons f fs)
  show ?case by (cases f) (auto simp: Cons.IH)
qed

lemma balanced_plugD: "balanced (plug t fs) \<Longrightarrow> balanced t"
proof (induction fs arbitrary: t)
  case Nil
  then show ?case by simp
next
  case (Cons f fs)
  from Cons.IH[of "fill f t"] Cons.prems show ?case by (cases f) auto
qed

lemma balanced_plug:
  "balanced (plug t fs) \<Longrightarrow> balanced t' \<Longrightarrow> bh t' = bh t \<Longrightarrow> balanced (plug t' fs)"
proof (induction fs arbitrary: t t')
  case Nil
  then show ?case by simp
next
  case (Cons f fs)
  from Cons.prems(1) have "balanced (fill f t)" by (auto dest: balanced_plugD)
  with Cons.prems have "balanced (fill f t')" "bh (fill f t') = bh (fill f t)"
    by (cases f; auto)+
  with Cons.IH[of "fill f t" "fill f t'"] Cons.prems(1) show ?case by simp
qed

lemma no_red_red_paint [simp]: "no_red_red t \<Longrightarrow> no_red_red (paint Black t)"
  by (cases t) auto

lemma balanced_paint [simp]: "balanced (paint k t) = balanced t"
  by (cases t) auto

lemma bh_paint_red: "rootcol u = Red \<Longrightarrow> bh (paint Black u) = Suc (bh u)"
  by (cases u) auto

lemma inorder_paint [simp]: "inorder (paint k t) = inorder t"
  by (cases t) auto

lemma addrs_paint [simp]: "addrs (paint k t) = addrs t"
  by (cases t) auto

lemma rootcol_paint_Black [simp]: "rootcol (paint Black t) = Black"
  by (cases t) auto

lemma rootcol_paint: "t \<noteq> Lf \<Longrightarrow> rootcol (paint k t) = k"
  by (cases t) auto

lemma fix_step_plug_inorder:
  "inorder (plug (fst (fix_step t fs)) (snd (fix_step t fs))) = inorder (plug t fs)"
  by (induction t fs rule: fix_step.induct) (auto simp: inorder_plug split: tree.splits)

lemma fix_step_plug_addrs:
  "addrs (plug (fst (fix_step t fs)) (snd (fix_step t fs))) = addrs (plug t fs)"
  by (induction t fs rule: fix_step.induct) (auto simp: addrs_plug split: tree.splits)

lemma fix_step_shape:
  assumes "rootcol t = Red" "no_red_red t" "ctx_rr (f1 # f2 # fs)" "fcolor f1 = Red"
  shows "rootcol (fst (fix_step t (f1 # f2 # fs))) = Red
         \<and> no_red_red (fst (fix_step t (f1 # f2 # fs)))
         \<and> ctx_rr (snd (fix_step t (f1 # f2 # fs)))"
  using assms by (cases f1; cases f2; cases t) auto

lemma fix_step_balanced:
  assumes "balanced (plug t (f1 # f2 # fs))" "fcolor f1 = Red" "fcolor f2 = Black"
    "rootcol t = Red"
  shows "balanced (plug (fst (fix_step t (f1 # f2 # fs))) (snd (fix_step t (f1 # f2 # fs))))"
proof -
  let ?old = "fill f2 (fill f1 t)"
  from assms(1) have o: "balanced (plug ?old fs)" by simp
  then have b: "balanced ?old" by (rule balanced_plugD)
  have "\<exists>N. plug (fst (fix_step t (f1 # f2 # fs))) (snd (fix_step t (f1 # f2 # fs))) = plug N fs
           \<and> balanced N \<and> bh N = bh ?old"
    using b assms(2,3,4)
    by (cases f1; cases f2; cases t) (auto simp: bh_paint_red)
  with o show ?thesis by (auto intro: balanced_plug)
qed

lemma fix_step_inv:
  assumes "fix_inv t (f1 # f2 # fs)" "fcolor f1 = Red"
  shows "fix_inv (fst (fix_step t (f1 # f2 # fs))) (snd (fix_step t (f1 # f2 # fs)))"
proof -
  from assms have f2: "fcolor f2 = Black" by (auto simp: fix_inv_def)
  from assms f2 show ?thesis
    unfolding fix_inv_def
    using fix_step_shape[of t f1 f2 fs] fix_step_balanced[of t f1 f2 fs] ctx_ok_step[of f1 f2 fs t]
    by blast
qed

lemma fix_loop_inorder:
  "inorder (plug (fst (fix_loop t fs)) (snd (fix_loop t fs))) = inorder (plug t fs)"
  by (induction t fs rule: fix_loop.induct)
    (auto simp: fix_step_plug_inorder simp del: fix_step.simps plug.simps)

lemma fix_loop_addrs:
  "addrs (plug (fst (fix_loop t fs)) (snd (fix_loop t fs))) = addrs (plug t fs)"
  by (induction t fs rule: fix_loop.induct)
    (auto simp: fix_step_plug_addrs simp del: fix_step.simps plug.simps)

lemma fix_loop_inv:
  "fix_inv t fs \<Longrightarrow>
   fix_inv (fst (fix_loop t fs)) (snd (fix_loop t fs))
   \<and> (snd (fix_loop t fs) \<noteq> [] \<longrightarrow> fcolor (hd (snd (fix_loop t fs))) = Black)"
proof (induction t fs rule: fix_loop.induct)
  case (1 t)
  then show ?case by simp
next
  case (2 t f)
  then show ?case by (simp add: fix_inv_def ctx_ok_def)
next
  case (3 t f1 f2 fs)
  show ?case
  proof (cases "fcolor f1 = Red")
    case True
    from fix_step_inv[OF "3.prems" True] "3.IH"[OF True] True show ?thesis by simp
  next
    case False
    with "3.prems" show ?thesis by simp
  qed
qed

theorem fix_tree_rb:
  assumes "fix_inv t fs"
  shows "no_red_red (fix_tree t fs)" "balanced (fix_tree t fs)"
    "rootcol (fix_tree t fs) = Black"
    "inorder (fix_tree t fs) = inorder (plug t fs)"
    "addrs (fix_tree t fs) = addrs (plug t fs)"
proof -
  let ?t = "fst (fix_loop t fs)" and ?fs = "snd (fix_loop t fs)"
  from fix_loop_inv[OF assms] have i: "fix_inv ?t ?fs" and
    h: "?fs \<noteq> [] \<longrightarrow> fcolor (hd ?fs) = Black" by auto
  from i h have "no_red_red (plug ?t ?fs)"
    by (simp add: no_red_red_plug fix_inv_def)
  then show "no_red_red (fix_tree t fs)" by (simp add: fix_tree_def)
  from i show "balanced (fix_tree t fs)" by (simp add: fix_tree_def fix_inv_def)
  from i have "rootcol ?t = Red" by (simp add: fix_inv_def)
  then have "?t \<noteq> Lf" by auto
  then have "rootp (plug ?t ?fs) \<noteq> None" by (intro plug_rootp) (cases ?t, auto)
  then have "plug ?t ?fs \<noteq> Lf" by auto
  then show "rootcol (fix_tree t fs) = Black" by (simp add: fix_tree_def rootcol_paint)
  show "inorder (fix_tree t fs) = inorder (plug t fs)"
    by (simp add: fix_tree_def fix_loop_inorder)
  show "addrs (fix_tree t fs) = addrs (plug t fs)"
    by (simp add: fix_tree_def fix_loop_addrs)
qed

lemma fixup_loop_sim:
  assumes "zip_of c t fs" "rootp t = Some z" "ctx_ok fs"
  shows "\<exists>c'. fixup_loop c z = Some c'
           \<and> zip_of c' (fst (fix_loop t fs)) (snd (fix_loop t fs))
           \<and> frame (set (addrs (plug t fs))) c c'"
  using assms
proof (induction t fs arbitrary: c z rule: fix_loop.induct)
  case (1 t)
  then have "root c = Some z" by (simp add: zip_of_def)
  with 1 show ?case by (subst fixup_loop.simps) simp
next
  case (2 t f)
  from zip_root_ne[OF 2(1,2)] have r: "root c \<noteq> Some z" by simp
  from 2(3) have "fcolor f = Black" by (simp add: ctx_ok_def)
  with r zip_reads[OF 2(1,2)] 2(1) show ?case
    by (subst fixup_loop.simps) simp
next
  case (3 t f1 f2 fs)
  from zip_root_ne[OF 3(2,3)] have r: "root c \<noteq> Some z" by simp
  note rd = zip_reads[OF 3(2,3)]
  show ?case
  proof (cases "fcolor f1 = Red")
    case False
    with r rd 3(2) show ?thesis
      by (subst fixup_loop.simps) simp
  next
    case True
    let ?t' = "fst (fix_step t (f1 # f2 # fs))"
    let ?fs' = "snd (fix_step t (f1 # f2 # fs))"
    from fixup_body_sim[OF 3(2,3)] obtain c1 z1 where
      B: "(if Some (faddr f1) = lft c (faddr f2) then fixup_left c z (faddr f2)
           else fixup_right c z (faddr f2)) = Some (c1, z1)" and
      Z1: "zip_of c1 ?t' ?fs'" and T1: "rootp ?t' = Some z1" and
      F1: "frame (set (addrs (plug t (f1 # f2 # fs)))) c c1"
      by blast
    from 3(4) have ok: "ctx_ok ?fs'" by (rule ctx_ok_step)
    from "3.IH"[OF True Z1 T1 ok] obtain c' where
      L: "fixup_loop c1 z1 = Some c'" and
      Z': "zip_of c' (fst (fix_loop ?t' ?fs')) (snd (fix_loop ?t' ?fs'))" and
      F': "frame (set (addrs (plug ?t' ?fs'))) c1 c'"
      by blast
    from F' have "frame (set (addrs (plug t (f1 # f2 # fs)))) c1 c'"
      by (simp only: fix_step_plug_addrs)
    from frame_trans[OF F1 this] have F: "frame (set (addrs (plug t (f1 # f2 # fs)))) c c'" .
    from r rd True B L have "fixup_loop c z = Some c'"
      by (subst fixup_loop.simps) simp
    with Z' F True show ?thesis by simp
  qed
qed

lemma fixup_insert_sim:
  assumes "zip_of c t fs" "rootp t = Some z" "ctx_ok fs"
  shows "\<exists>c'. fixup_insert c z = Some c' \<and> tree_of c' (fix_tree t fs)
           \<and> frame (set (addrs (plug t fs))) c c'"
proof -
  from fixup_loop_sim[OF assms] obtain c1 where
    L: "fixup_loop c z = Some c1" and
    Z: "zip_of c1 (fst (fix_loop t fs)) (snd (fix_loop t fs))" and
    F: "frame (set (addrs (plug t fs))) c c1"
    by blast
  let ?T = "plug (fst (fix_loop t fs)) (snd (fix_loop t fs))"
  from Z have T: "tree_of c1 ?T" by (simp add: zip_plug)
  from assms(2) have "rootp ?T \<noteq> None"
    by (intro plug_rootp fix_loop_rootp) simp
  then obtain r where r: "rootp ?T = Some r" by auto
  with T have rc: "root c1 = Some r" by (simp add: tree_of_def)
  from tree_of_paint[OF T rc] have T': "tree_of (set_color r Black c1) (fix_tree t fs)"
    by (simp add: fix_tree_def)
  from r have "r \<in> set (addrs ?T)" by (rule rootp_addrs)
  then have "r \<in> set (addrs (plug t fs))" by (simp add: fix_loop_addrs)
  then have "frame (set (addrs (plug t fs))) c1 (set_color r Black c1)"
    by (rule frame_set_color)
  from frame_trans[OF F this] L rc T' show ?thesis
    by (auto simp: fixup_insert_def)
qed

lemma descend_plug: "plug (fst (descend cmp key t fs)) (snd (descend cmp key t fs)) = plug t fs"
  by (induction t arbitrary: fs) auto

lemma descend_fst: "fst (descend cmp key t fs) = fst (descend cmp key t fs')"
  by (induction t arbitrary: fs fs') auto

lemma zip_descend:
  "zip_of c t fs \<Longrightarrow> zip_of c (fst (descend cmp key t fs)) (snd (descend cmp key t fs))"
  by (simp add: zip_plug descend_plug)

lemma zip_slot: "zip_of c t fs \<Longrightarrow> get_slot c (cslot fs) = rootp t"
  by (cases fs rule: cslot.cases) (auto simp: zip_of_def)

lemma container_find_loop_sim:
  "htree (mem c) up t \<Longrightarrow>
   container_find_loop cmp c key (rootp t) = Some (rootp (fst (descend cmp key t fs)))"
proof (induction t arbitrary: up fs)
  case Lf
  show ?case by (subst container_find_loop.simps) simp
next
  case (Nd l a k x r)
  from Nd.prems have l: "htree (mem c) (Some a) l" and r: "htree (mem c) (Some a) r"
    and rd: "dat c a = x" "lft c a = rootp l" "rgt c a = rootp r"
    by auto
  from Nd.IH(1)[OF l] Nd.IH(2)[OF r] rd show ?case
    by (subst container_find_loop.simps) (simp add: Let_def)
qed

lemma chain_find_loop_sim:
  "htree (mem c) up t \<Longrightarrow>
   chain_find_loop cmp c key (rootp t) False = Some (rootp (fst (descend cmp key t fs)))"
proof (induction t arbitrary: up fs)
  case Lf
  show ?case by (subst chain_find_loop.simps) simp
next
  case (Nd l a k x r)
  from Nd.prems have l: "htree (mem c) (Some a) l" and r: "htree (mem c) (Some a) r"
    and rd: "dat c a = x" "lft c a = rootp l" "rgt c a = rootp r"
    by auto
  have t: "chain_find_loop cmp c key (Some a) True = Some (Some a)"
    by (subst chain_find_loop.simps) simp
  from Nd.IH(1)[OF l] Nd.IH(2)[OF r] rd t show ?case
    by (subst chain_find_loop.simps) (simp add: Let_def)
qed

lemma chain_insert_loop_sim:
  "zip_of c t fs \<Longrightarrow>
   chain_insert_loop cmp c z (cslot fs) (ctop fs) False =
     Some (cslot (snd (descend cmp (dat c z) t fs)), ctop (snd (descend cmp (dat c z) t fs)))"
proof (induction t arbitrary: fs)
  case Lf
  from zip_slot[OF Lf] show ?case by (subst chain_insert_loop.simps) simp
next
  case (Nd l a k x r)
  from zip_slot[OF Nd.prems] have s: "get_slot c (cslot fs) = Some a" by simp
  from Nd.prems have x: "dat c a = x" by (simp add: zip_of_def)
  from Nd.prems have zl: "zip_of c l (FL a k x r # fs)" and zr: "zip_of c r (FR l a k x # fs)"
    by (simp_all add: zip_up)
  have t: "\<And>sl u. chain_insert_loop cmp c z sl u True = Some (sl, u)"
    by (subst chain_insert_loop.simps) simp
  from Nd.IH(1)[OF zl] Nd.IH(2)[OF zr] s x t show ?case
    by (subst chain_insert_loop.simps) (simp add: Let_def)
qed

lemma container_insert_loop_sim:
  "zip_of c t fs \<Longrightarrow>
   container_insert_loop cmp c key (cslot fs) (ctop fs) (rootp t) False =
     Some (cslot (snd (descend cmp key t fs)), ctop (snd (descend cmp key t fs)),
           rootp (fst (descend cmp key t fs)))"
proof (induction t arbitrary: fs)
  case Lf
  show ?case by (subst container_insert_loop.simps) simp
next
  case (Nd l a k x r)
  from zip_slot[OF Nd.prems] have s: "get_slot c (cslot fs) = Some a" by simp
  from Nd.prems have x: "dat c a = x" "lft c a = rootp l" "rgt c a = rootp r"
    by (simp_all add: zip_of_def)
  from Nd.prems have zl: "zip_of c l (FL a k x r # fs)" and zr: "zip_of c r (FR l a k x # fs)"
    by (simp_all add: zip_up)
  have t: "\<And>sl u. container_insert_loop cmp c key sl u (Some a) True = Some (sl, u, Some a)"
    by (subst container_insert_loop.simps) simp
  from Nd.IH(1)[OF zl] Nd.IH(2)[OF zr] s x t show ?case
    by (subst container_insert_loop.simps) (simp add: Let_def)
qed

lemma zip_of_cong: "mem c' = mem c \<Longrightarrow> root c' = root c \<Longrightarrow> zip_of c' t fs = zip_of c t fs"
  by (simp add: zip_of_def)

lemma tree_of_cong: "mem c' = mem c \<Longrightarrow> root c' = root c \<Longrightarrow> tree_of c' t = tree_of c t"
  by (simp add: tree_of_def)

lemma chain_link:
  assumes "zip_of c Lf fs" "z \<notin> set (addrs (plug Lf fs))" "lft c z = None" "rgt c z = None"
  shows "zip_of (set_color z Red (set_parent z (ctop fs) (set_slot (cslot fs) (Some z) c)))
           (Nd Lf z Red (dat c z) Lf) fs"
    and "frame (insert z (set (addrs (plug Lf fs)))) c
           (set_color z Red (set_parent z (ctop fs) (set_slot (cslot fs) (Some z) c)))"
  using assms
  by (cases fs rule: cslot.cases;
      auto simp: zip_of_def addrs_plug frame_def set_color_def set_parent_def set_left_def
        set_right_def)+

lemma container_link:
  assumes "zip_of c Lf fs" "brk c \<notin> set (addrs (plug Lf fs))"
  shows "zip_of (container_link mk c key (cslot fs) (ctop fs)) (Nd Lf (brk c) Red (mk key) Lf) fs"
    and "brk (container_link mk c key (cslot fs) (ctop fs)) = Suc (brk c)"
    and "count (container_link mk c key (cslot fs) (ctop fs)) = count c + 1"
    and "\<forall>e. e \<notin> insert (brk c) (set (addrs (plug Lf fs))) \<longrightarrow>
           mem (container_link mk c key (cslot fs) (ctop fs)) e = mem c e"
  using assms
  by (cases fs rule: cslot.cases;
      auto simp: zip_of_def addrs_plug container_link_def make_node_def allocate_def Let_def
        set_color_def set_parent_def set_left_def set_right_def set_data_def)+

lemma rootcol_plug: "fs \<noteq> [] \<Longrightarrow> rootcol (plug t fs) = fcolor (last fs)"
proof (induction fs arbitrary: t)
  case Nil
  then show ?case by simp
next
  case (Cons f fs)
  then show ?case by (cases f; cases fs) auto
qed

lemma insert_fix_inv:
  assumes "rb_inv (plug Lf fs)"
  shows "fix_inv (Nd Lf z Red x Lf) fs"
proof -
  from assms have "no_red_red (plug Lf fs)" "balanced (plug Lf fs)" "rootcol (plug Lf fs) = Black"
    by (simp_all add: rb_inv_def)
  moreover from this(2) have "balanced (plug (Nd Lf z Red x Lf) fs)"
    by (rule balanced_plug) simp_all
  ultimately show ?thesis
    by (cases "fs = []") (auto simp: fix_inv_def no_red_red_plug ctx_ok_def rootcol_plug)
qed

lemma insert_rb:
  assumes "rb_inv (plug Lf fs)"
  shows "rb_inv (fix_tree (Nd Lf z Red x Lf) fs)"
    and "inorder (fix_tree (Nd Lf z Red x Lf) fs) = dpre fs @ x # dpost fs"
    and "addrs (fix_tree (Nd Lf z Red x Lf) fs) = apre fs @ z # apost fs"
  using fix_tree_rb[OF insert_fix_inv[OF assms, of z x]]
  by (simp_all add: rb_inv_def inorder_plug addrs_plug)

lemma fix_tree_single: "fix_tree (Nd Lf z Red x Lf) [] = Nd Lf z Black x Lf"
  by (simp add: fix_tree_def)

lemma descend_found:
  "fst (descend cmp key t fs) = Nd l a k x r \<Longrightarrow>
   cmp key x = 0 \<and> x \<in> set (inorder t) \<and> a \<in> set (addrs t)"
  by (induction t arbitrary: fs) (auto split: if_splits)

lemma container_insert_found:
  assumes "tree_of c t" "fst (descend cmp key t []) = Nd l a k x r"
  shows "container_insert mk cmp c key = Some (c, a)"
proof -
  from assms(2) have "t \<noteq> Lf" by auto
  with assms(1) have r: "root c \<noteq> None" "root c = rootp t"
    by (cases t; auto simp: tree_of_def)+
  from assms(1) have "zip_of c t []" by (simp add: zip_nil)
  from container_insert_loop_sim[OF this, of cmp key] r assms(2) show ?thesis
    by (auto simp: container_insert_def)
qed

lemma container_insert_new:
  assumes T: "tree_of c t" and D: "fst (descend cmp key t []) = Lf" and RB: "rb_inv t"
    and B: "\<forall>a\<in>set (addrs t). a < brk c"
  shows "\<exists>c'. container_insert mk cmp c key = Some (c', brk c)
           \<and> tree_of c' (fix_tree (Nd Lf (brk c) Red (mk key) Lf) (snd (descend cmp key t [])))
           \<and> brk c' = Suc (brk c) \<and> count c' = count c + 1
           \<and> (\<forall>e. e \<notin> insert (brk c) (set (addrs t)) \<longrightarrow> mem c' e = mem c e)"
proof (cases t)
  case Lf
  with T have "root c = None" by (simp add: tree_of_def)
  with Lf show ?thesis
    by (auto simp: container_insert_def make_node_def allocate_def Let_def fix_tree_single
        tree_of_def set_color_def set_parent_def set_left_def set_right_def set_data_def)
next
  case (Nd l a k x r)
  let ?fs = "snd (descend cmp key t [])"
  let ?n = "brk c"
  from Nd T have r: "root c \<noteq> None" "root c = rootp t" by (auto simp: tree_of_def)
  from T have Z0: "zip_of c t []" by (simp add: zip_nil)
  from zip_descend[OF Z0, of cmp key] D have Z: "zip_of c Lf ?fs" by simp
  from descend_plug[of cmp key t "[]"] D have P: "plug Lf ?fs = t" by simp
  from B P have fresh: "?n \<notin> set (addrs (plug Lf ?fs))" by auto
  let ?c5 = "container_link mk c key (cslot ?fs) (ctop ?fs)"
  note L = container_link[OF Z fresh, of mk key]
  from P Nd have "?fs \<noteq> []" by auto
  with RB P have ok: "ctx_ok ?fs"
    using rootcol_plug[of ?fs Lf] by (simp add: ctx_ok_def rb_inv_def)
  from fixup_insert_sim[OF L(1) _ ok, of ?n] obtain c6 where
    F: "fixup_insert ?c5 ?n = Some c6" and
    T6: "tree_of c6 (fix_tree (Nd Lf ?n Red (mk key) Lf) ?fs)" and
    Fr: "frame (set (addrs (plug (Nd Lf ?n Red (mk key) Lf) ?fs))) ?c5 c6"
    by auto
  from arg_cong[OF P, of addrs] have "addrs t = apre ?fs @ apost ?fs"
    by (simp add: addrs_plug)
  then have A: "set (addrs (plug (Nd Lf ?n Red (mk key) Lf) ?fs)) = insert ?n (set (addrs t))"
    by (auto simp: addrs_plug)
  from container_insert_loop_sim[OF Z0, of cmp key] r D F
  have "container_insert mk cmp c key = Some (c6, ?n)"
    by (auto simp: container_insert_def container_link_def make_node_def allocate_def Let_def)
  with T6 Fr L(2,3,4) A P show ?thesis
    by (auto simp: frame_def)
qed

lemma chain_insert_found:
  assumes "tree_of c t" "fst (descend cmp (dat c z) t []) = Nd l a k x r"
  shows "chain_insert cmp c z = Some (c\<lparr>count := count c + 1\<rparr>, z)"
proof -
  from assms(2) have "t \<noteq> Lf" by auto
  with assms(1) have r: "root c \<noteq> None"
    by (cases t; auto simp: tree_of_def)
  from assms(1) have Z0: "zip_of c t []" by (simp add: zip_nil)
  from zip_slot[OF zip_descend[OF Z0, of cmp "dat c z"]] assms(2)
  have "get_slot c (cslot (snd (descend cmp (dat c z) t []))) \<noteq> None" by simp
  with chain_insert_loop_sim[OF Z0, of cmp z] r show ?thesis
    by (auto simp: chain_insert_def)
qed

lemma chain_insert_new:
  assumes T: "tree_of c t" and D: "fst (descend cmp (dat c z) t []) = Lf" and RB: "rb_inv t"
    and fresh: "z \<notin> set (addrs t)" and nul: "lft c z = None" "rgt c z = None" "par c z = None"
  shows "\<exists>c'. chain_insert cmp c z = Some (c', z)
           \<and> tree_of c' (fix_tree (Nd Lf z Red (dat c z) Lf) (snd (descend cmp (dat c z) t [])))
           \<and> frame (insert z (set (addrs t))) (c\<lparr>count := count c + 1\<rparr>) c'"
proof (cases t)
  case Lf
  with T have "root c = None" by (simp add: tree_of_def)
  moreover have "chain_insert_loop cmp c z RootSlot None False \<noteq> None"
    using chain_insert_loop_sim[of c t "[]" cmp z] T by (simp add: zip_nil)
  ultimately show ?thesis using Lf nul
    by (auto simp: chain_insert_def fix_tree_single tree_of_def set_color_def frame_def)
next
  case (Nd l a k x r)
  let ?fs = "snd (descend cmp (dat c z) t [])"
  from Nd T have r: "root c \<noteq> None" by (auto simp: tree_of_def)
  from T have Z0: "zip_of c t []" by (simp add: zip_nil)
  from zip_descend[OF Z0, of cmp "dat c z"] D have Z: "zip_of c Lf ?fs" by simp
  from descend_plug[of cmp "dat c z" t "[]"] D have P: "plug Lf ?fs = t" by simp
  from fresh P have fr: "z \<notin> set (addrs (plug Lf ?fs))" by auto
  let ?c1 = "set_color z Red (set_parent z (ctop ?fs) (set_slot (cslot ?fs) (Some z) c))"
  note L = chain_link[OF Z fr nul(1,2)]
  from P Nd have "?fs \<noteq> []" by auto
  with RB P have ok: "ctx_ok ?fs"
    using rootcol_plug[of ?fs Lf] by (simp add: ctx_ok_def rb_inv_def)
  from fixup_insert_sim[OF L(1) _ ok, of z] obtain c2 where
    F: "fixup_insert ?c1 z = Some c2" and
    T2: "tree_of c2 (fix_tree (Nd Lf z Red (dat c z) Lf) ?fs)" and
    Fr: "frame (set (addrs (plug (Nd Lf z Red (dat c z) Lf) ?fs))) ?c1 c2"
    by auto
  from arg_cong[OF P, of addrs] have "addrs t = apre ?fs @ apost ?fs"
    by (simp add: addrs_plug)
  then have A: "set (addrs (plug (Nd Lf z Red (dat c z) Lf) ?fs)) = insert z (set (addrs t))"
    by (auto simp: addrs_plug)
  from zip_slot[OF Z] have s: "get_slot c (cslot ?fs) = None" by simp
  from chain_insert_loop_sim[OF Z0, of cmp z] r s F
  have C: "chain_insert cmp c z = Some (c2\<lparr>count := count c2 + 1\<rparr>, z)"
    by (auto simp: chain_insert_def)
  from T2 have "tree_of (c2\<lparr>count := count c2 + 1\<rparr>) (fix_tree (Nd Lf z Red (dat c z) Lf) ?fs)"
    by (simp add: tree_of_def)
  moreover from L(2) Fr A P have "frame (insert z (set (addrs t))) (c\<lparr>count := count c + 1\<rparr>)
     (c2\<lparr>count := count c2 + 1\<rparr>)"
    by (auto simp: frame_def)
  ultimately show ?thesis using C by auto
qed

lemma total_cmp_refl: "total_cmp kcmp \<Longrightarrow> kcmp a a = 0"
  by (simp add: total_cmp_def)

lemma total_cmp_flip: "total_cmp kcmp \<Longrightarrow> (0 < kcmp a b) = (kcmp b a < 0)"
  by (simp add: total_cmp_def)

lemma total_cmp_sym: "total_cmp kcmp \<Longrightarrow> kcmp a b = 0 \<Longrightarrow> kcmp b a = 0"
  unfolding total_cmp_def by (metis less_irrefl linorder_neqE_linordered_idom)

lemma total_cmp_trans: "total_cmp kcmp \<Longrightarrow> kcmp a b < 0 \<Longrightarrow> kcmp b c < 0 \<Longrightarrow> kcmp a c < 0"
  unfolding total_cmp_def by blast

lemma total_cmp_eq_trans: "total_cmp kcmp \<Longrightarrow> kcmp a b = 0 \<Longrightarrow> kcmp b c = 0 \<Longrightarrow> kcmp a c = 0"
  unfolding total_cmp_def by blast

lemma total_cmp_eq_lt:
  assumes "total_cmp kcmp" "kcmp a b = 0" "kcmp b c < 0"
  shows "kcmp a c < 0"
proof (rule ccontr)
  assume n: "\<not> kcmp a c < 0"
  show False
  proof (cases "kcmp a c = 0")
    case True
    from total_cmp_sym[OF assms(1,2)] True assms(1) have "kcmp b c = 0"
      by (rule total_cmp_eq_trans[rotated])
    with assms(3) show False by simp
  next
    case False
    with n have "0 < kcmp a c" by simp
    with assms(1) have "kcmp c a < 0" by (simp add: total_cmp_flip)
    with assms(1,3) have "kcmp b a < 0" by (blast intro: total_cmp_trans)
    with total_cmp_sym[OF assms(1,2)] show False by simp
  qed
qed

lemma total_cmp_lt_eq:
  assumes "total_cmp kcmp" "kcmp a b < 0" "kcmp b c = 0"
  shows "kcmp a c < 0"
proof -
  from assms(1,2) have "0 < kcmp b a" by (simp add: total_cmp_def)
  then have nb: "\<not> kcmp b a < 0" "kcmp b a \<noteq> 0" by simp_all
  have "kcmp c a \<noteq> 0"
  proof
    assume "kcmp c a = 0"
    with assms(1,3) have "kcmp b a = 0" by (blast intro: total_cmp_eq_trans)
    with nb show False by simp
  qed
  moreover have "\<not> kcmp c a < 0"
  proof
    assume "kcmp c a < 0"
    from total_cmp_eq_lt[OF assms(1,3) this] nb show False by simp
  qed
  ultimately have "0 < kcmp c a" by simp
  with assms(1) show ?thesis by (simp add: total_cmp_flip)
qed

lemma length_inorder_addrs [simp]: "length (inorder t) = length (addrs t)"
  by (induction t) auto

lemma length_dpre_apre [simp]: "length (dpre fs) = length (apre fs)"
  by (induction fs rule: apre.induct) auto

lemma length_dpost_apost [simp]: "length (dpost fs) = length (apost fs)"
  by (induction fs rule: apost.induct) auto

lemma descend_bounds:
  assumes tc: "total_cmp kcmp" and ag: "\<forall>x. cmp key x = kcmp key (key_of x)"
  shows "sorted_wrt (key_lt kcmp key_of) (inorder (plug t fs)) \<Longrightarrow>
         \<forall>x\<in>set (dpre fs). kcmp (key_of x) key < 0 \<Longrightarrow>
         \<forall>x\<in>set (dpost fs). kcmp key (key_of x) < 0 \<Longrightarrow>
         (\<forall>x\<in>set (dpre (snd (descend cmp key t fs))). kcmp (key_of x) key < 0)
         \<and> (\<forall>x\<in>set (dpost (snd (descend cmp key t fs))). kcmp key (key_of x) < 0)"
proof (induction t arbitrary: fs)
  case Lf
  then show ?case by simp
next
  case (Nd l a k x r)
  from Nd.prems(1) have srt: "\<forall>y\<in>set (inorder l). kcmp (key_of y) (key_of x) < 0"
    "\<forall>y\<in>set (inorder r). kcmp (key_of x) (key_of y) < 0"
    by (auto simp: inorder_plug sorted_wrt_append key_lt_def)
  show ?case
  proof (cases "cmp key x < 0")
    case True
    with ag have kx: "kcmp key (key_of x) < 0" by simp
    with srt(2) tc have "\<forall>y\<in>set (inorder r). kcmp key (key_of y) < 0"
      by (blast intro: total_cmp_trans)
    with kx Nd.prems have
      "\<forall>y\<in>set (dpre (FL a k x r # fs)). kcmp (key_of y) key < 0"
      "\<forall>y\<in>set (dpost (FL a k x r # fs)). kcmp key (key_of y) < 0"
      by auto
    from Nd.IH(1)[of "FL a k x r # fs", OF _ this] Nd.prems(1) True show ?thesis
      by simp
  next
    case False
    show ?thesis
    proof (cases "cmp key x > 0")
      case True
      with ag tc have kx: "kcmp (key_of x) key < 0" by (simp add: total_cmp_flip)
      with srt(1) tc have "\<forall>y\<in>set (inorder l). kcmp (key_of y) key < 0"
        by (blast intro: total_cmp_trans)
      with kx Nd.prems have
        "\<forall>y\<in>set (dpre (FR l a k x # fs)). kcmp (key_of y) key < 0"
        "\<forall>y\<in>set (dpost (FR l a k x # fs)). kcmp key (key_of y) < 0"
        by auto
      from Nd.IH(2)[of "FR l a k x # fs", OF _ this] Nd.prems(1) True False show ?thesis
        by simp
    next
      case F2: False
      with False Nd.prems show ?thesis by simp
    qed
  qed
qed

lemma insert_sorted:
  assumes tc: "total_cmp kcmp" and ag: "\<forall>x. cmp key x = kcmp key (key_of x)"
    and S: "keys_sorted kcmp key_of t" and D: "fst (descend cmp key t []) = Lf"
    and K: "key_of x = key"
  shows "sorted_wrt (key_lt kcmp key_of)
           (dpre (snd (descend cmp key t [])) @ x # dpost (snd (descend cmp key t [])))"
proof -
  let ?fs = "snd (descend cmp key t [])"
  from descend_plug[of cmp key t "[]"] D have P: "plug Lf ?fs = t" by simp
  from S have "sorted_wrt (key_lt kcmp key_of) (inorder (plug t []))"
    by (simp add: keys_sorted_def)
  from descend_bounds[where kcmp = kcmp and cmp = cmp and key = key and key_of = key_of
      and t = t and fs = "[]"] tc ag this have
    b: "\<forall>y\<in>set (dpre ?fs). kcmp (key_of y) key < 0" "\<forall>y\<in>set (dpost ?fs). kcmp key (key_of y) < 0"
    by auto
  from arg_cong[OF P, of inorder] S have "sorted_wrt (key_lt kcmp key_of) (dpre ?fs @ dpost ?fs)"
    by (simp add: inorder_plug keys_sorted_def)
  with b K show ?thesis
    by (auto simp: sorted_wrt_append key_lt_def)
qed

lemma descend_finds:
  assumes tc: "total_cmp kcmp" and ag: "\<forall>x. cmp key x = kcmp key (key_of x)"
  shows "sorted_wrt (key_lt kcmp key_of) (inorder t) \<Longrightarrow>
         (a, x) \<in> set (zip (addrs t) (inorder t)) \<Longrightarrow> kcmp key (key_of x) = 0 \<Longrightarrow>
         rootp (fst (descend cmp key t fs)) = Some a"
proof (induction t arbitrary: fs)
  case Lf
  then show ?case by simp
next
  case (Nd l b k y r)
  from Nd.prems(1) have sl: "sorted_wrt (key_lt kcmp key_of) (inorder l)"
    and sr: "sorted_wrt (key_lt kcmp key_of) (inorder r)"
    by (auto simp: sorted_wrt_append)
  from Nd.prems(1) have ly: "\<forall>v\<in>set (inorder l). kcmp (key_of v) (key_of y) < 0"
    and yr: "\<forall>v\<in>set (inorder r). kcmp (key_of y) (key_of v) < 0"
    by (auto simp: sorted_wrt_append key_lt_def)
  from Nd.prems(2) consider
    (L) "(a, x) \<in> set (zip (addrs l) (inorder l))" | (M) "a = b" "x = y" |
    (R) "(a, x) \<in> set (zip (addrs r) (inorder r))"
    by auto
  then show ?case
  proof cases
    case L
    then have "x \<in> set (inorder l)" by (auto dest: set_zip_rightD)
    with ly have "kcmp (key_of x) (key_of y) < 0" by simp
    from total_cmp_eq_lt[OF tc Nd.prems(3) this] ag have "cmp key y < 0" by simp
    with Nd.IH(1)[OF sl L Nd.prems(3)] show ?thesis by simp
  next
    case M
    with Nd.prems(3) ag show ?thesis by simp
  next
    case R
    then have "x \<in> set (inorder r)" by (auto dest: set_zip_rightD)
    with yr have "kcmp (key_of y) (key_of x) < 0" by simp
    from total_cmp_lt_eq[OF tc this total_cmp_sym[OF tc Nd.prems(3)]]
    have "kcmp (key_of y) key < 0" .
    with tc ag have "cmp key y > 0" by (simp add: total_cmp_flip)
    with Nd.IH(2)[OF sr R Nd.prems(3)] show ?thesis by simp
  qed
qed

lemma descend_Lf_iff:
  assumes tc: "total_cmp kcmp" and ag: "\<forall>x. cmp key x = kcmp key (key_of x)"
    and S: "keys_sorted kcmp key_of t"
  shows "fst (descend cmp key t fs) = Lf \<longleftrightarrow> (\<forall>x\<in>set (inorder t). kcmp key (key_of x) \<noteq> 0)"
proof
  assume L: "fst (descend cmp key t fs) = Lf"
  show "\<forall>x\<in>set (inorder t). kcmp key (key_of x) \<noteq> 0"
  proof (intro ballI notI)
    fix x assume x: "x \<in> set (inorder t)" and e: "kcmp key (key_of x) = 0"
    from x obtain i where i: "i < length (inorder t)" "inorder t ! i = x"
      by (auto simp: in_set_conv_nth)
    then have "(addrs t ! i, x) \<in> set (zip (addrs t) (inorder t))"
      by (auto simp: set_zip)
    from descend_finds[where kcmp = kcmp and cmp = cmp and key = key and key_of = key_of
        and t = t and fs = fs and a = "addrs t ! i" and x = x] tc ag S this e L
    show False by (simp add: keys_sorted_def)
  qed
next
  assume N: "\<forall>x\<in>set (inorder t). kcmp key (key_of x) \<noteq> 0"
  show "fst (descend cmp key t fs) = Lf"
  proof (cases "fst (descend cmp key t fs)")
    case Lf
    then show ?thesis .
  next
    case (Nd l a k x r)
    from descend_found[OF Nd] N ag show ?thesis by auto
  qed
qed

lemma descend_found_zip:
  "fst (descend cmp key t fs) = Nd l a k x r \<Longrightarrow> (a, x) \<in> set (zip (addrs t) (inorder t))"
  by (induction t arbitrary: fs) (auto split: if_splits)

lemma zip_mid: "length xs = length us \<Longrightarrow> (a, x) \<in> set (zip (xs @ a # ys) (us @ x # vs))"
  by simp

lemma container_insert_new_inv:
  assumes tc: "total_cmp kcmp" and ag: "\<forall>k x. cmp k x = kcmp k (key_of x)"
    and mkk: "\<forall>k. key_of (mk k) = k"
    and W: "winv kcmp key_of c t" and B: "\<forall>a\<in>set (addrs t). a < brk c"
    and D: "fst (descend cmp key t []) = Lf"
  shows "\<exists>c' t'. container_insert mk cmp c key = Some (c', brk c) \<and> winv kcmp key_of c' t'
           \<and> (\<forall>a\<in>set (addrs t'). a < brk c')
           \<and> brk c' = Suc (brk c) \<and> count c' = count c + 1
           \<and> set (addrs t') = insert (brk c) (set (addrs t))
           \<and> length (addrs t') = Suc (length (addrs t))
           \<and> set (inorder t') = insert (mk key) (set (inorder t))
           \<and> (brk c, mk key) \<in> set (zip (addrs t') (inorder t'))
           \<and> (\<forall>e. e \<notin> insert (brk c) (set (addrs t)) \<longrightarrow> mem c' e = mem c e)"
proof -
  let ?fs = "snd (descend cmp key t [])"
  let ?t' = "fix_tree (Nd Lf (brk c) Red (mk key) Lf) ?fs"
  from W have T: "tree_of c t" and RB: "rb_inv t" and S: "keys_sorted kcmp key_of t"
    by (simp_all add: winv_def)
  from container_insert_new[OF T D RB B, of mk] obtain c' where
    I: "container_insert mk cmp c key = Some (c', brk c)" and T': "tree_of c' ?t'"
    and K: "brk c' = Suc (brk c)" "count c' = count c + 1"
    and M: "\<forall>e. e \<notin> insert (brk c) (set (addrs t)) \<longrightarrow> mem c' e = mem c e"
    by blast
  from descend_plug[of cmp key t "[]"] D have P: "plug Lf ?fs = t" by simp
  from RB P have RBp: "rb_inv (plug Lf ?fs)" by simp
  note R = insert_rb[OF RBp, of "brk c" "mk key"]
  from arg_cong[OF P, of addrs] have A: "addrs t = apre ?fs @ apost ?fs"
    by (simp add: addrs_plug)
  from arg_cong[OF P, of inorder] have N: "inorder t = dpre ?fs @ dpost ?fs"
    by (simp add: inorder_plug)
  from ag have ag': "\<forall>x. cmp key x = kcmp key (key_of x)" by simp
  from mkk have "key_of (mk key) = key" by simp
  from insert_sorted[where kcmp = kcmp and key_of = key_of and cmp = cmp and key = key, OF tc ag' S D this] R(2) have S': "keys_sorted kcmp key_of ?t'"
    by (simp add: keys_sorted_def)
  from T' R(1) S' have W': "winv kcmp key_of c' ?t'" by (simp add: winv_def)
  from R(3) A B K have B': "\<forall>a\<in>set (addrs ?t'). a < brk c'" by (auto intro: less_SucI)
  have Z: "(brk c, mk key) \<in> set (zip (addrs ?t') (inorder ?t'))"
    unfolding R(2,3) by (rule zip_mid) simp
  from I W' B' K R(2,3) A N Z M show ?thesis
    by (intro exI[of _ c'] exI[of _ ?t']) auto
qed

lemma container_insert_cases:
  assumes tc: "total_cmp kcmp" and ag: "\<forall>k x. cmp k x = kcmp k (key_of x)"
    and mkk: "\<forall>k. key_of (mk k) = k"
    and W: "winv kcmp key_of c t" and B: "\<forall>a\<in>set (addrs t). a < brk c"
  shows "(\<exists>a x. (a, x) \<in> set (zip (addrs t) (inorder t)) \<and> kcmp key (key_of x) = 0
             \<and> container_insert mk cmp c key = Some (c, a))
       \<or> ((\<forall>x\<in>set (inorder t). kcmp key (key_of x) \<noteq> 0)
          \<and> (\<exists>c' t'. container_insert mk cmp c key = Some (c', brk c) \<and> winv kcmp key_of c' t'
           \<and> (\<forall>a\<in>set (addrs t'). a < brk c')
           \<and> brk c' = Suc (brk c) \<and> count c' = count c + 1
           \<and> set (addrs t') = insert (brk c) (set (addrs t))
           \<and> length (addrs t') = Suc (length (addrs t))
           \<and> set (inorder t') = insert (mk key) (set (inorder t))
           \<and> (brk c, mk key) \<in> set (zip (addrs t') (inorder t'))
           \<and> (\<forall>e. e \<notin> insert (brk c) (set (addrs t)) \<longrightarrow> mem c' e = mem c e)))"
proof (cases "fst (descend cmp key t [])")
  case Lf
  from ag have ag': "\<forall>x. cmp key x = kcmp key (key_of x)" by simp
  from W have S: "keys_sorted kcmp key_of t" by (simp add: winv_def)
  from descend_Lf_iff[where kcmp = kcmp and key_of = key_of and fs = "[]" and cmp = cmp and key = key, OF tc ag' S] Lf
  have "\<forall>x\<in>set (inorder t). kcmp key (key_of x) \<noteq> 0" by simp
  with container_insert_new_inv[OF tc ag mkk W B Lf] show ?thesis by blast
next
  case (Nd l a k x r)
  from W have T: "tree_of c t" by (simp add: winv_def)
  from descend_found[OF Nd] ag have "kcmp key (key_of x) = 0" by simp
  with descend_found_zip[OF Nd] container_insert_found[OF T Nd, of mk] show ?thesis by blast
qed

lemma black_counts_balanced: "balanced t \<Longrightarrow> set (black_counts t) = {bh t}"
  by (induction t) auto

lemma container_find_tree:
  "tree_of c t \<Longrightarrow> container_find cmp c key = Some (rootp (fst (descend cmp key t [])))"
  using container_find_loop_sim[of c None t cmp key "[]"]
  by (simp add: container_find_def tree_of_def)

lemma container_insert_hit:
  assumes tc: "total_cmp kcmp" and ag: "\<forall>k x. cmp k x = kcmp k (key_of x)"
    and W: "winv kcmp key_of c t"
    and Z: "(a, x) \<in> set (zip (addrs t) (inorder t))" and E: "kcmp key (key_of x) = 0"
  shows "container_insert mk cmp c key = Some (c, a)"
    and "container_find cmp c key = Some (Some a)"
proof -
  from ag have ag': "\<forall>x. cmp key x = kcmp key (key_of x)" by simp
  from W have S: "sorted_wrt (key_lt kcmp key_of) (inorder t)" and T: "tree_of c t"
    by (simp_all add: winv_def keys_sorted_def)
  from descend_finds[where kcmp = kcmp and key_of = key_of and cmp = cmp and key = key
      and fs = "[]", OF tc ag' S Z E]
  have r: "rootp (fst (descend cmp key t [])) = Some a" .
  then obtain l k y r where "fst (descend cmp key t []) = Nd l a k y r"
    by (cases "fst (descend cmp key t [])") auto
  from container_insert_found[OF T this] show "container_insert mk cmp c key = Some (c, a)" .
  from container_find_tree[OF T, of cmp key] r show "container_find cmp c key = Some (Some a)"
    by simp
qed

lemma container_inv_winv:
  "container_inv kcmp key_of c \<longleftrightarrow>
     (\<exists>t. winv kcmp key_of c t \<and> (\<forall>a\<in>set (addrs t). a < brk c)
          \<and> count c = of_nat (length (addrs t)))"
  by (auto simp: container_inv_def winv_def)

lemma container_insert_total:
  assumes tc: "total_cmp kcmp" and ag: "\<forall>k x. cmp k x = kcmp k (key_of x)"
    and mkk: "\<forall>k. key_of (mk k) = k"
    and I: "container_inv kcmp key_of c"
  shows "\<exists>c1 p. container_insert mk cmp c k1 = Some (c1, p)
           \<and> container_inv kcmp key_of c1
           \<and> (\<forall>k2. kcmp k1 k2 = 0 \<longrightarrow>
                 container_insert mk cmp c1 k2 = Some (c1, p)
                 \<and> container_find cmp c1 k2 = Some (Some p))
           \<and> (\<forall>q. container_find cmp c k1 = Some (Some q) \<longrightarrow> c1 = c \<and> p = q)
           \<and> count c1 = (if container_find cmp c k1 = Some None then count c + 1 else count c)"
proof -
  from I obtain t where W: "winv kcmp key_of c t" and B: "\<forall>a\<in>set (addrs t). a < brk c"
    and C: "count c = of_nat (length (addrs t))"
    by (auto simp: container_inv_winv)
  from container_insert_cases[OF tc ag mkk W B, of k1]
  show ?thesis
  proof (elim disjE exE conjE)
    fix a x
    assume Z: "(a, x) \<in> set (zip (addrs t) (inorder t))" and E: "kcmp k1 (key_of x) = 0"
      and R: "container_insert mk cmp c k1 = Some (c, a)"
    have H: "container_insert mk cmp c k2 = Some (c, a) \<and> container_find cmp c k2 = Some (Some a)"
      if "kcmp k1 k2 = 0" for k2
    proof -
      from total_cmp_eq_trans[OF tc total_cmp_sym[OF tc that] E]
      have "kcmp k2 (key_of x) = 0" .
      from container_insert_hit[OF tc ag W Z this] show ?thesis by simp
    qed
    from H[of k1] tc have F: "container_find cmp c k1 = Some (Some a)"
      by (simp add: total_cmp_refl)
    from R I H F show ?thesis by auto
  next
    fix c' t'
    assume N: "\<forall>x\<in>set (inorder t). kcmp k1 (key_of x) \<noteq> 0"
      and R: "container_insert mk cmp c k1 = Some (c', brk c)"
      and W': "winv kcmp key_of c' t'" and B': "\<forall>a\<in>set (addrs t'). a < brk c'"
      and K: "count c' = count c + 1" "length (addrs t') = Suc (length (addrs t))"
      and Z: "(brk c, mk k1) \<in> set (zip (addrs t') (inorder t'))"
    from W' B' K C have I': "container_inv kcmp key_of c'"
      by (auto simp: container_inv_winv)
    have H: "container_insert mk cmp c' k2 = Some (c', brk c)
             \<and> container_find cmp c' k2 = Some (Some (brk c))"
      if "kcmp k1 k2 = 0" for k2
    proof -
      from total_cmp_sym[OF tc that] mkk have "kcmp k2 (key_of (mk k1)) = 0" by simp
      from container_insert_hit[OF tc ag W' Z this] show ?thesis by simp
    qed
    from ag have ag': "\<forall>x. cmp k1 x = kcmp k1 (key_of x)" by simp
    from W have S: "keys_sorted kcmp key_of t" and T: "tree_of c t" by (simp_all add: winv_def)
    from descend_Lf_iff[where kcmp = kcmp and key_of = key_of and fs = "[]" and cmp = cmp
        and key = k1, OF tc ag' S] N
    have "fst (descend cmp k1 t []) = Lf" by simp
    with container_find_tree[OF T, of cmp k1] have F: "container_find cmp c k1 = Some None"
      by simp
    from R I' H F K show ?thesis by auto
  qed
qed

lemma container_insert_all_inv:
  assumes tc: "total_cmp kcmp" and ag: "\<forall>k x. cmp k x = kcmp k (key_of x)"
    and mkk: "\<forall>k. key_of (mk k) = k"
  shows "winv kcmp key_of c t \<Longrightarrow> \<forall>a\<in>set (addrs t). a < brk c \<Longrightarrow>
         \<exists>c' t'. container_insert_all mk cmp c ks = Some c' \<and> winv kcmp key_of c' t'
           \<and> (\<forall>a\<in>set (addrs t'). a < brk c')
           \<and> set (inorder t) \<subseteq> set (inorder t')
           \<and> set (inorder t') \<subseteq> set (inorder t) \<union> mk ` set ks
           \<and> (\<forall>k\<in>set ks. \<exists>x\<in>set (inorder t'). kcmp k (key_of x) = 0)
           \<and> count c' - of_nat (length (addrs t')) = count c - of_nat (length (addrs t))"
proof (induction ks arbitrary: c t)
  case Nil
  then show ?case by auto
next
  case (Cons k ks)
  from container_insert_cases[OF tc ag mkk Cons.prems, of k]
  show ?case
  proof (elim disjE exE conjE)
    fix a x
    assume Z: "(a, x) \<in> set (zip (addrs t) (inorder t))" and E: "kcmp k (key_of x) = 0"
      and R: "container_insert mk cmp c k = Some (c, a)"
    from Z have x: "x \<in> set (inorder t)" by (rule set_zip_rightD)
    from Cons.IH[OF Cons.prems] obtain c' t' where
      A: "container_insert_all mk cmp c ks = Some c'" "winv kcmp key_of c' t'"
        "\<forall>a\<in>set (addrs t'). a < brk c'" "set (inorder t) \<subseteq> set (inorder t')"
        "set (inorder t') \<subseteq> set (inorder t) \<union> mk ` set ks"
        "\<forall>k\<in>set ks. \<exists>x\<in>set (inorder t'). kcmp k (key_of x) = 0"
        "count c' - of_nat (length (addrs t')) = count c - of_nat (length (addrs t))"
      by blast
    from A(4) x E have "\<exists>x\<in>set (inorder t'). kcmp k (key_of x) = 0" by blast
    with A R show ?thesis
      by (intro exI[of _ c'] exI[of _ t']) auto
  next
    fix c1 t1
    assume R: "container_insert mk cmp c k = Some (c1, brk c)"
      and W1: "winv kcmp key_of c1 t1" and B1: "\<forall>a\<in>set (addrs t1). a < brk c1"
      and S1: "set (inorder t1) = insert (mk k) (set (inorder t))"
      and K1: "count c1 = count c + 1" and L1: "length (addrs t1) = Suc (length (addrs t))"
    from Cons.IH[OF W1 B1] obtain c' t' where
      A: "container_insert_all mk cmp c1 ks = Some c'" "winv kcmp key_of c' t'"
        "\<forall>a\<in>set (addrs t'). a < brk c'" "set (inorder t1) \<subseteq> set (inorder t')"
        "set (inorder t') \<subseteq> set (inorder t1) \<union> mk ` set ks"
        "\<forall>k\<in>set ks. \<exists>x\<in>set (inorder t'). kcmp k (key_of x) = 0"
        "count c' - of_nat (length (addrs t')) = count c1 - of_nat (length (addrs t1))"
      by blast
    from S1 A(4) have "mk k \<in> set (inorder t')" by auto
    moreover from tc mkk have "kcmp k (key_of (mk k)) = 0" by (simp add: total_cmp_refl)
    ultimately have "\<exists>x\<in>set (inorder t'). kcmp k (key_of x) = 0" by blast
    with A R S1 K1 L1 show ?thesis
      by (intro exI[of _ c'] exI[of _ t']) auto
  qed
qed

lemma container_insert_all_distinct:
  assumes tc: "total_cmp kcmp" and ag: "\<forall>k x. cmp k x = kcmp k (key_of x)"
    and mkk: "\<forall>k. key_of (mk k) = k"
  shows "winv kcmp key_of c t \<Longrightarrow> \<forall>a\<in>set (addrs t). a < brk c \<Longrightarrow>
         distinct_keys kcmp ks \<Longrightarrow>
         \<forall>k\<in>set ks. \<forall>x\<in>set (inorder t). kcmp k (key_of x) \<noteq> 0 \<Longrightarrow>
         \<exists>c'. container_insert_all mk cmp c ks = Some c'
              \<and> count c' = count c + of_nat (length ks)"
proof (induction ks arbitrary: c t)
  case Nil
  then show ?case by simp
next
  case (Cons k ks)
  from container_insert_cases[OF tc ag mkk Cons.prems(1,2), of k]
  show ?case
  proof (elim disjE exE conjE)
    fix a x
    assume Z: "(a, x) \<in> set (zip (addrs t) (inorder t))" and E: "kcmp k (key_of x) = 0"
    from Z have "x \<in> set (inorder t)" by (rule set_zip_rightD)
    with Cons.prems(4) E show ?thesis by auto
  next
    fix c1 t1
    assume R: "container_insert mk cmp c k = Some (c1, brk c)"
      and W1: "winv kcmp key_of c1 t1" and B1: "\<forall>a\<in>set (addrs t1). a < brk c1"
      and S1: "set (inorder t1) = insert (mk k) (set (inorder t))"
      and K: "count c1 = count c + 1"
    from Cons.prems(3) have d: "distinct_keys kcmp ks" and nk: "\<forall>k'\<in>set ks. kcmp k k' \<noteq> 0"
      by simp_all
    have "\<forall>k'\<in>set ks. \<forall>x\<in>set (inorder t1). kcmp k' (key_of x) \<noteq> 0"
    proof (intro ballI)
      fix k' x assume k': "k' \<in> set ks" and x: "x \<in> set (inorder t1)"
      show "kcmp k' (key_of x) \<noteq> 0"
      proof (cases "x = mk k")
        case True
        from nk k' total_cmp_sym[OF tc, of k' k] have "kcmp k' k \<noteq> 0" by blast
        with True mkk show ?thesis by simp
      next
        case False
        with x S1 have "x \<in> set (inorder t)" by simp
        with Cons.prems(4) k' show ?thesis by simp
      qed
    qed
    from Cons.IH[OF W1 B1 d this] obtain c' where
      "container_insert_all mk cmp c1 ks = Some c'" "count c' = count c1 + of_nat (length ks)"
      by blast
    with R K show ?thesis by simp
  qed
qed

lemma winv_empty: "root c = None \<Longrightarrow> winv kcmp key_of c Lf"
  by (simp add: winv_def tree_of_def rb_inv_def keys_sorted_def)

lemma zip_insert_mid:
  "length xs = length us \<Longrightarrow>
   set (zip (xs @ a # ys) (us @ x # vs)) = insert (a, x) (set (zip (xs @ ys) (us @ vs)))"
  by auto

lemma htree_data: "htree h up t \<Longrightarrow> (a, x) \<in> set (zip (addrs t) (inorder t)) \<Longrightarrow> data (h a) = x"
  by (induction t arbitrary: up) auto

lemma zip_addr_ex: "a \<in> set (addrs t) \<Longrightarrow> \<exists>x. (a, x) \<in> set (zip (addrs t) (inorder t))"
proof -
  assume "a \<in> set (addrs t)"
  then obtain i where "i < length (addrs t)" "addrs t ! i = a" by (auto simp: in_set_conv_nth)
  then have "(a, inorder t ! i) \<in> set (zip (addrs t) (inorder t))"
    by (auto simp: set_zip)
  then show ?thesis ..
qed

lemma chain_insert_cases:
  assumes tc: "total_cmp cmp" and W: "winv cmp (\<lambda>x. x) c t"
  shows "(\<exists>a x. (a, x) \<in> set (zip (addrs t) (inorder t)) \<and> cmp (dat c z) x = 0
             \<and> chain_insert cmp c z = Some (c\<lparr>count := count c + 1\<rparr>, z))
       \<or> ((\<forall>x\<in>set (inorder t). cmp (dat c z) x \<noteq> 0) \<and> z \<notin> set (addrs t)
          \<and> (fresh_link c z \<longrightarrow>
              (\<exists>c' t'. chain_insert cmp c z = Some (c', z) \<and> winv cmp (\<lambda>x. x) c' t'
                 \<and> set (zip (addrs t') (inorder t')) =
                     insert (z, dat c z) (set (zip (addrs t) (inorder t)))
                 \<and> set (addrs t') = insert z (set (addrs t))
                 \<and> set (inorder t') = insert (dat c z) (set (inorder t))
                 \<and> length (addrs t') = Suc (length (addrs t))
                 \<and> frame (insert z (set (addrs t))) (c\<lparr>count := count c + 1\<rparr>) c')))"
proof (cases "fst (descend cmp (dat c z) t [])")
  case (Nd l a k x r)
  from W have T: "tree_of c t" by (simp add: winv_def)
  from descend_found[OF Nd] descend_found_zip[OF Nd] chain_insert_found[OF T Nd]
  show ?thesis by blast
next
  case Lf
  let ?key = "dat c z"
  let ?fs = "snd (descend cmp ?key t [])"
  let ?t' = "fix_tree (Nd Lf z Red ?key Lf) ?fs"
  from W have T: "tree_of c t" and RB: "rb_inv t" and S: "keys_sorted cmp (\<lambda>x. x) t"
    by (simp_all add: winv_def)
  have ag': "\<forall>x. cmp ?key x = cmp ?key x" by simp
  from descend_Lf_iff[where kcmp = cmp and key_of = "\<lambda>x. x" and fs = "[]" and cmp = cmp
      and key = ?key, OF tc ag' S] Lf
  have N: "\<forall>x\<in>set (inorder t). cmp ?key x \<noteq> 0" by simp
  have fr: "z \<notin> set (addrs t)"
  proof
    assume "z \<in> set (addrs t)"
    from zip_addr_ex[OF this] obtain x where x: "(z, x) \<in> set (zip (addrs t) (inorder t))" ..
    from T have "htree (mem c) None t" by (simp add: tree_of_def)
    from htree_data[OF this x] have "x = ?key" by simp
    moreover from x have "x \<in> set (inorder t)" by (rule set_zip_rightD)
    ultimately show False using N tc by (auto simp: total_cmp_refl)
  qed
  have "\<exists>c' t'. chain_insert cmp c z = Some (c', z) \<and> winv cmp (\<lambda>x. x) c' t'
                 \<and> set (zip (addrs t') (inorder t')) =
                     insert (z, dat c z) (set (zip (addrs t) (inorder t)))
                 \<and> set (addrs t') = insert z (set (addrs t))
                 \<and> set (inorder t') = insert (dat c z) (set (inorder t))
                 \<and> length (addrs t') = Suc (length (addrs t))
                 \<and> frame (insert z (set (addrs t))) (c\<lparr>count := count c + 1\<rparr>) c'"
    if F: "fresh_link c z"
  proof -
    from F have nul: "lft c z = None" "rgt c z = None" "par c z = None"
      by (simp_all add: fresh_link_def)
    from chain_insert_new[OF T Lf RB fr nul] obtain c' where
      I: "chain_insert cmp c z = Some (c', z)" and T': "tree_of c' ?t'"
      and Fr: "frame (insert z (set (addrs t))) (c\<lparr>count := count c + 1\<rparr>) c'"
      by blast
    from descend_plug[of cmp ?key t "[]"] Lf have P: "plug Lf ?fs = t" by simp
    from RB P have RBp: "rb_inv (plug Lf ?fs)" by simp
    note R = insert_rb[OF RBp, of z ?key]
    from arg_cong[OF P, of addrs] have A: "addrs t = apre ?fs @ apost ?fs"
      by (simp add: addrs_plug)
    from arg_cong[OF P, of inorder] have M: "inorder t = dpre ?fs @ dpost ?fs"
      by (simp add: inorder_plug)
    have "(\<lambda>x. x) ?key = ?key" by simp
    from insert_sorted[where kcmp = cmp and key_of = "\<lambda>x. x" and cmp = cmp and key = ?key,
        OF tc ag' S Lf this] R(2)
    have S': "keys_sorted cmp (\<lambda>x. x) ?t'" by (simp add: keys_sorted_def)
    from T' R(1) S' have W': "winv cmp (\<lambda>x. x) c' ?t'" by (simp add: winv_def)
    have Z: "set (zip (addrs ?t') (inorder ?t')) =
             insert (z, ?key) (set (zip (addrs t) (inorder t)))"
      unfolding R(2,3) A M by (rule zip_insert_mid) simp
    from I W' Z R(2,3) A M Fr show ?thesis
      by (intro exI[of _ c'] exI[of _ ?t']) auto
  qed
  with N fr show ?thesis by blast
qed

lemma chain_insert_new_data:
  assumes T: "tree_of c t" and T': "tree_of c' t'"
    and Z: "set (zip (addrs t') (inorder t')) = insert (z, dat c z) (set (zip (addrs t) (inorder t)))"
    and A: "set (addrs t') = insert z (set (addrs t))"
    and F: "frame (insert z (set (addrs t))) (c\<lparr>count := count c + 1\<rparr>) c'"
  shows "dat c' a = dat c a"
proof (cases "a \<in> set (addrs t')")
  case True
  from zip_addr_ex[OF True] obtain x where x: "(a, x) \<in> set (zip (addrs t') (inorder t'))" ..
  from T' have "htree (mem c') None t'" by (simp add: tree_of_def)
  from htree_data[OF this x] have 1: "dat c' a = x" .
  from x Z have "(a, x) = (z, dat c z) \<or> (a, x) \<in> set (zip (addrs t) (inorder t))" by auto
  then show ?thesis
  proof
    assume "(a, x) = (z, dat c z)"
    with 1 show ?thesis by simp
  next
    assume o: "(a, x) \<in> set (zip (addrs t) (inorder t))"
    from T have "htree (mem c) None t" by (simp add: tree_of_def)
    from htree_data[OF this o] 1 show ?thesis by simp
  qed
next
  case False
  with A F show ?thesis by (simp add: frame_def)
qed

lemma winv_count [simp]: "winv kcmp key_of (c\<lparr>count := n\<rparr>) t = winv kcmp key_of c t"
  by (simp add: winv_def tree_of_def)

lemma chain_insert_all_inv:
  assumes tc: "total_cmp cmp"
  shows "winv cmp (\<lambda>x. x) c t \<Longrightarrow> \<forall>z\<in>set zs. z \<in> set (addrs t) \<or> fresh_link c z \<Longrightarrow>
         \<exists>c' t'. chain_insert_all cmp c zs = Some c' \<and> winv cmp (\<lambda>x. x) c' t'
           \<and> count c' = count c + of_nat (length zs)
           \<and> (\<forall>a. dat c' a = dat c a)
           \<and> set (addrs t) \<subseteq> set (addrs t')
           \<and> set (addrs t') \<subseteq> set (addrs t) \<union> set zs
           \<and> (\<forall>z\<in>set zs. \<exists>x\<in>set (inorder t'). cmp (dat c z) x = 0)"
proof (induction zs arbitrary: c t)
  case Nil
  then show ?case by auto
next
  case (Cons z zs)
  from chain_insert_cases[OF tc Cons.prems(1), of z]
  show ?case
  proof (elim disjE exE conjE)
    fix a x
    assume Z: "(a, x) \<in> set (zip (addrs t) (inorder t))" and E: "cmp (dat c z) x = 0"
      and R: "chain_insert cmp c z = Some (c\<lparr>count := count c + 1\<rparr>, z)"
    let ?c1 = "c\<lparr>count := count c + 1\<rparr>"
    from Cons.prems(1) have W1: "winv cmp (\<lambda>x. x) ?c1 t" by (simp only: winv_count)
    from Cons.prems(2) have F1: "\<forall>z\<in>set zs. z \<in> set (addrs t) \<or> fresh_link ?c1 z"
      by (simp add: fresh_link_def)
    from Cons.IH[OF W1 F1] obtain c' t' where
      A: "chain_insert_all cmp ?c1 zs = Some c'" "winv cmp (\<lambda>x. x) c' t'"
        "count c' = count ?c1 + of_nat (length zs)" "\<forall>a. dat c' a = dat ?c1 a"
        "set (addrs t) \<subseteq> set (addrs t')" "set (addrs t') \<subseteq> set (addrs t) \<union> set zs"
        "\<forall>z\<in>set zs. \<exists>x\<in>set (inorder t'). cmp (dat ?c1 z) x = 0"
      by blast
    from Z have xin: "x \<in> set (inorder t)" by (rule set_zip_rightD)
    from Cons.prems(1) A(2) have h: "htree (mem c) None t" "htree (mem c') None t'"
      by (simp_all add: winv_def tree_of_def)
    from Z have "a \<in> set (addrs t)" by (rule set_zip_leftD)
    with A(5) have "a \<in> set (addrs t')" by auto
    from zip_addr_ex[OF this] obtain x' where x': "(a, x') \<in> set (zip (addrs t') (inorder t'))" ..
    from htree_data[OF h(2) x'] htree_data[OF h(1) Z] A(4) have "x' = x" by simp
    with x' have "x \<in> set (inorder t')" by (auto dest: set_zip_rightD)
    with E have "\<exists>x\<in>set (inorder t'). cmp (dat c z) x = 0" by blast
    with A R show ?thesis
      by (intro exI[of _ c'] exI[of _ t']) auto
  next
    assume N: "z \<notin> set (addrs t)"
      and H: "fresh_link c z \<longrightarrow>
              (\<exists>c' t'. chain_insert cmp c z = Some (c', z) \<and> winv cmp (\<lambda>x. x) c' t'
                 \<and> set (zip (addrs t') (inorder t')) =
                     insert (z, dat c z) (set (zip (addrs t) (inorder t)))
                 \<and> set (addrs t') = insert z (set (addrs t))
                 \<and> set (inorder t') = insert (dat c z) (set (inorder t))
                 \<and> length (addrs t') = Suc (length (addrs t))
                 \<and> frame (insert z (set (addrs t))) (c\<lparr>count := count c + 1\<rparr>) c')"
    from N Cons.prems(2) have "fresh_link c z" by auto
    with H obtain c1 t1 where
      R: "chain_insert cmp c z = Some (c1, z)" and W1: "winv cmp (\<lambda>x. x) c1 t1"
      and Z1: "set (zip (addrs t1) (inorder t1)) =
                 insert (z, dat c z) (set (zip (addrs t) (inorder t)))"
      and A1: "set (addrs t1) = insert z (set (addrs t))"
      and I1: "set (inorder t1) = insert (dat c z) (set (inorder t))"
      and Fr: "frame (insert z (set (addrs t))) (c\<lparr>count := count c + 1\<rparr>) c1"
      by blast
    from Cons.prems(1) W1 have T: "tree_of c t" "tree_of c1 t1" by (simp_all add: winv_def)
    note D = chain_insert_new_data[OF T Z1 A1 Fr]
    have F1: "\<forall>z'\<in>set zs. z' \<in> set (addrs t1) \<or> fresh_link c1 z'"
    proof
      fix z' assume z': "z' \<in> set zs"
      show "z' \<in> set (addrs t1) \<or> fresh_link c1 z'"
      proof (cases "z' \<in> insert z (set (addrs t))")
        case True
        with A1 show ?thesis by simp
      next
        case False
        with Fr have "mem c1 z' = mem c z'" by (simp add: frame_def)
        moreover from False z' Cons.prems(2) have "fresh_link c z'" by auto
        ultimately show ?thesis by (simp add: fresh_link_def)
      qed
    qed
    from Cons.IH[OF W1 F1] obtain c' t' where
      A: "chain_insert_all cmp c1 zs = Some c'" "winv cmp (\<lambda>x. x) c' t'"
        "count c' = count c1 + of_nat (length zs)" "\<forall>a. dat c' a = dat c1 a"
        "set (addrs t1) \<subseteq> set (addrs t')" "set (addrs t') \<subseteq> set (addrs t1) \<union> set zs"
        "\<forall>z\<in>set zs. \<exists>x\<in>set (inorder t'). cmp (dat c1 z) x = 0"
      by blast
    from Fr have K: "count c1 = count c + 1" by (simp add: frame_def)
    from A(2) have h': "htree (mem c') None t'" by (simp add: winv_def tree_of_def)
    from A1 A(5) have "z \<in> set (addrs t')" by auto
    from zip_addr_ex[OF this] obtain x' where x': "(z, x') \<in> set (zip (addrs t') (inorder t'))" ..
    from htree_data[OF h' x'] A(4) D have "x' = dat c z" by simp
    with x' have "dat c z \<in> set (inorder t')" by (auto dest: set_zip_rightD)
    with total_cmp_refl[OF tc, of "dat c z"]
    have "\<exists>x\<in>set (inorder t'). cmp (dat c z) x = 0" by blast
    with A R K D A1 show ?thesis
      by (intro exI[of _ c'] exI[of _ t']) auto
  qed
qed

section \<open>Insertion into the owning tree and the embedded tree\<close>

lemma total_cmp_compare: "total_cmp compare"
  by (auto simp: total_cmp_def compare_def)

lemma compare_eq_0 [simp]: "compare a b = 0 \<longleftrightarrow> a = b"
  by (simp add: compare_def)

lemma container_reach:
  assumes tc: "total_cmp kcmp" and ag: "\<forall>k x. cmp k x = kcmp k (key_of x)"
    and mkk: "\<forall>k. key_of (mk k) = k"
    and r0: "root c0 = None" and n0: "count c0 = 0"
  shows "\<exists>c t. container_insert_all mk cmp c0 ks = Some c \<and> winv kcmp key_of c t
           \<and> (\<forall>a\<in>set (addrs t). a < brk c)
           \<and> count c = of_nat (length (addrs t))
           \<and> set (inorder t) \<subseteq> mk ` set ks
           \<and> (\<forall>k\<in>set ks. \<exists>x\<in>set (inorder t). kcmp k (key_of x) = 0)"
proof -
  have W: "winv kcmp key_of c0 Lf" using r0 by (rule winv_empty)
  have B: "\<forall>a\<in>set (addrs (Lf :: 'b tree)). a < brk c0" by simp
  from container_insert_all_inv[OF tc ag mkk W B, of ks] n0 show ?thesis
    by (elim exE conjE) (rule exI, rule exI, simp)
qed

lemma inorder_addr:
  assumes "x \<in> set (inorder t)"
  obtains a where "(a, x) \<in> set (zip (addrs t) (inorder t))"
  using assms in_set_impl_in_set_zip2[of "addrs t" "inorder t" x] by auto

lemma container_insert_step:
  assumes tc: "total_cmp kcmp" and ag: "\<forall>k x. cmp k x = kcmp k (key_of x)"
    and mkk: "\<forall>k. key_of (mk k) = k"
    and W: "winv kcmp key_of c t" and B: "\<forall>a\<in>set (addrs t). a < brk c"
    and N: "count c = of_nat (length (addrs t))"
    and S: "set (inorder t) \<subseteq> mk ` set ks"
    and H: "\<forall>k\<in>set ks. \<exists>x\<in>set (inorder t). kcmp k (key_of x) = 0"
  shows "\<exists>c1 p. container_insert mk cmp c k1 = Some (c1, p)
           \<and> container_insert mk cmp c1 k1 = Some (c1, p)
           \<and> (\<forall>k2. kcmp k1 k2 = 0 \<longrightarrow> container_insert mk cmp c1 k2 = Some (c1, p))
           \<and> ((\<exists>k\<in>set ks. kcmp k1 k = 0) \<longrightarrow>
                 c1 = c \<and> container_find cmp c k1 = Some (Some p))
           \<and> ((\<exists>k\<in>set ks. kcmp k1 k = 0) \<longrightarrow> count c1 = count c)
           \<and> ((\<forall>k\<in>set ks. kcmp k1 k \<noteq> 0) \<longrightarrow> count c1 = count c + 1)"
proof -
  have I: "container_inv kcmp key_of c"
    unfolding container_inv_winv using W B N by blast
  from container_insert_total[OF tc ag mkk I, of k1] obtain c1 p where
    R: "container_insert mk cmp c k1 = Some (c1, p)"
    and E: "\<forall>k2. kcmp k1 k2 = 0 \<longrightarrow> container_insert mk cmp c1 k2 = Some (c1, p)
              \<and> container_find cmp c1 k2 = Some (Some p)"
    and Q: "\<forall>q. container_find cmp c k1 = Some (Some q) \<longrightarrow> c1 = c \<and> p = q"
    and C: "count c1 = (if container_find cmp c k1 = Some None then count c + 1 else count c)"
    by blast
  have R2: "container_insert mk cmp c1 k1 = Some (c1, p)"
    using E total_cmp_refl[OF tc, of k1] by blast
  have P: "c1 = c \<and> container_find cmp c k1 = Some (Some p)" if "\<exists>k\<in>set ks. kcmp k1 k = 0"
  proof -
    from that obtain k where k: "k \<in> set ks" "kcmp k1 k = 0" by blast
    with H obtain x where x: "x \<in> set (inorder t)" "kcmp k (key_of x) = 0" by blast
    from k(2) x(2) have e: "kcmp k1 (key_of x) = 0" by (rule total_cmp_eq_trans[OF tc])
    from x(1) obtain a where a: "(a, x) \<in> set (zip (addrs t) (inorder t))"
      by (rule inorder_addr)
    from container_insert_hit(2)[OF tc ag W a e]
    have "container_find cmp c k1 = Some (Some a)" .
    with Q show ?thesis by simp
  qed
  have A: "count c1 = count c + 1" if n: "\<forall>k\<in>set ks. kcmp k1 k \<noteq> 0"
  proof -
    have "\<forall>x\<in>set (inorder t). kcmp k1 (key_of x) \<noteq> 0"
    proof
      fix x assume "x \<in> set (inorder t)"
      with S obtain k where "k \<in> set ks" "x = mk k" by blast
      with n mkk show "kcmp k1 (key_of x) \<noteq> 0" by simp
    qed
    with container_insert_cases[OF tc ag mkk W B, of k1] R show ?thesis
      by (auto dest: set_zip_rightD)
  qed
  from R R2 E P A show ?thesis by auto
qed

text \<open>
  Claim C1. Unification in the owning tree. Take any container reached from the empty
  one by a sequence \<open>ks\<close> of insertions, under a comparator that is a total order \<open>kcmp\<close>
  on the keys of the payloads. Then \<open>insert(k1, cmp)\<close> returns, and calling it a second
  time returns the same payload and changes nothing; \<open>insert(k2, cmp)\<close> for any \<open>k2\<close>
  with \<open>kcmp k1 k2 = 0\<close> returns that same payload; and when a key equal to \<open>k1\<close> was
  already inserted, the first call leaves the whole state as it was (no node is
  allocated) and returns the payload that \<open>find\<close> returns.
\<close>

theorem container_insert_unifies:
  assumes "total_cmp kcmp" and "\<forall>k x. cmp k x = kcmp k (key_of x)"
    and "\<forall>k. key_of (mk k) = k"
    and "root c0 = None" and "count c0 = 0"
  shows "\<exists>c. container_insert_all mk cmp c0 ks = Some c
           \<and> (\<exists>c1 p. container_insert mk cmp c k1 = Some (c1, p)
                \<and> container_insert mk cmp c1 k1 = Some (c1, p)
                \<and> (\<forall>k2. kcmp k1 k2 = 0 \<longrightarrow> container_insert mk cmp c1 k2 = Some (c1, p))
                \<and> ((\<exists>k\<in>set ks. kcmp k1 k = 0) \<longrightarrow>
                      c1 = c \<and> container_find cmp c k1 = Some (Some p)))"
proof -
  from container_reach[OF assms, of ks] obtain c t where
    R: "container_insert_all mk cmp c0 ks = Some c" "winv kcmp key_of c t"
      "\<forall>a\<in>set (addrs t). a < brk c" "count c = of_nat (length (addrs t))"
      "set (inorder t) \<subseteq> mk ` set ks"
      "\<forall>k\<in>set ks. \<exists>x\<in>set (inorder t). kcmp k (key_of x) = 0"
    by blast
  from container_insert_step[OF assms(1-3) R(2-6), of k1] R(1) show ?thesis by blast
qed

theorem container_insert_unifies_witness:
  "\<exists>c. container_insert_all id compare (new_core raw_memory) [5, 2, 8] = Some c
     \<and> (\<exists>c1 p. container_insert id compare c 5 = Some (c1, p)
          \<and> container_insert id compare c1 5 = Some (c1, p)
          \<and> c1 = c \<and> container_find compare c 5 = Some (Some p))"
  using container_insert_unifies[of compare compare "\<lambda>x. x" id "new_core raw_memory" "[5, 2, 8]" 5]
  by (simp add: total_cmp_compare new_core_def)

text \<open>
  Claim C5, as the code has it. \<open>container<T>::insert\<close> increments \<open>count\<close> in the two
  branches that allocate a node and nowhere else: on a container reached from the empty
  one by inserting \<open>ks\<close>, inserting \<open>k1\<close> leaves \<open>size()\<close> unchanged when a key equal to
  \<open>k1\<close> is among \<open>ks\<close>, and increments it by one when none is.
\<close>

theorem container_insert_size:
  assumes "total_cmp kcmp" and "\<forall>k x. cmp k x = kcmp k (key_of x)"
    and "\<forall>k. key_of (mk k) = k"
    and "root c0 = None" and "count c0 = 0"
  shows "\<exists>c c1 p. container_insert_all mk cmp c0 ks = Some c
           \<and> container_insert mk cmp c k1 = Some (c1, p)
           \<and> ((\<exists>k\<in>set ks. kcmp k1 k = 0) \<longrightarrow> size_core c1 = size_core c)
           \<and> ((\<forall>k\<in>set ks. kcmp k1 k \<noteq> 0) \<longrightarrow> size_core c1 = size_core c + 1)"
proof -
  from container_reach[OF assms, of ks] obtain c t where
    R: "container_insert_all mk cmp c0 ks = Some c" "winv kcmp key_of c t"
      "\<forall>a\<in>set (addrs t). a < brk c" "count c = of_nat (length (addrs t))"
      "set (inorder t) \<subseteq> mk ` set ks"
      "\<forall>k\<in>set ks. \<exists>x\<in>set (inorder t). kcmp k (key_of x) = 0"
    by blast
  from container_insert_step[OF assms(1-3) R(2-6), of k1] R(1) show ?thesis
    unfolding size_core_def by blast
qed

theorem container_insert_size_witness:
  "(\<exists>c c1 p. container_insert_all id compare (new_core raw_memory) [5, 2, 8] = Some c
      \<and> container_insert id compare c 5 = Some (c1, p) \<and> size_core c1 = size_core c)
   \<and> (\<exists>c c1 p. container_insert_all id compare (new_core raw_memory) [5, 2, 8] = Some c
      \<and> container_insert id compare c 7 = Some (c1, p) \<and> size_core c1 = size_core c + 1)"
  using container_insert_size[of compare compare "\<lambda>x. x" id "new_core raw_memory" "[5, 2, 8]" 5]
    container_insert_size[of compare compare "\<lambda>x. x" id "new_core raw_memory" "[5, 2, 8]" 7]
  by (simp add: total_cmp_compare new_core_def)

theorem container_insert_present_key_keeps_size:
  "container_insert id compare (new_core raw_memory) 5 = Some (one_node, 0)
   \<and> container_insert id compare one_node 5 = Some (one_node, 0)
   \<and> size_core one_node = 1"
  by (simp add: container_insert_def make_node_def allocate_def new_core_def one_node_def
      set_left_def set_right_def set_parent_def set_data_def set_color_def size_core_def
      raw_memory_def new_link_def compare_def container_insert_loop.simps Let_def)

lemma container_count_distinct:
  assumes "total_cmp kcmp" and "\<forall>k x. cmp k x = kcmp k (key_of x)"
    and "\<forall>k. key_of (mk k) = k"
    and "root c0 = None" and "count c0 = 0"
    and "distinct_keys kcmp ks"
  shows "\<exists>c. container_insert_all mk cmp c0 ks = Some c \<and> size_core c = of_nat (length ks)"
proof -
  have W: "winv kcmp key_of c0 Lf" using assms(4) by (rule winv_empty)
  have B: "\<forall>a\<in>set (addrs (Lf :: 'b tree)). a < brk c0" by simp
  have E: "\<forall>k\<in>set ks. \<forall>x\<in>set (inorder (Lf :: 'b tree)). kcmp k (key_of x) \<noteq> 0" by simp
  from container_insert_all_distinct[OF assms(1-3) W B assms(6) E] assms(5)
  show ?thesis by (simp add: size_core_def)
qed

lemma sint_of_nat_int32:
  assumes "n < 2147483648"
  shows "sint (of_nat n :: 32 word) = int n"
proof -
  have "signed_take_bit 31 (int n) = int n"
    using assms by (intro signed_take_bit_int_eq_self) simp_all
  then show ?thesis by (simp add: signed_of_nat)
qed

lemma distinct_keys_compare: "distinct_keys compare ks = distinct ks"
  by (induction ks) auto

lemma distinct_keys_upt: "distinct_keys compare (map int [0..<n])"
  by (simp add: distinct_keys_compare distinct_map)

text \<open>
  Claim C6, as the code has it. \<open>size()\<close> returns \<open>count\<close>, an \<open>int\<close>. Inserting \<open>N\<close> keys
  that are pairwise distinct under the comparator into an empty owning tree returns every
  time and leaves \<open>size() = N\<close>, for every \<open>N\<close> up to \<open>2^31 - 1\<close>, the largest value an
  \<open>int\<close> holds. With \<open>2^31\<close> distinct keys the counter has wrapped and \<open>size()\<close> reads
  \<open>- 2^31\<close>.
\<close>

theorem container_size_distinct:
  assumes "total_cmp kcmp" and "\<forall>k x. cmp k x = kcmp k (key_of x)"
    and "\<forall>k. key_of (mk k) = k"
    and "root c0 = None" and "count c0 = 0"
    and "distinct_keys kcmp ks"
    and "length ks \<le> 2147483647"
  shows "\<exists>c. container_insert_all mk cmp c0 ks = Some c
           \<and> sint (size_core c) = int (length ks)"
proof -
  from assms(7) have "length ks < 2147483648" by simp
  then have "sint (of_nat (length ks) :: 32 word) = int (length ks)"
    by (rule sint_of_nat_int32)
  with container_count_distinct[OF assms(1-6)] show ?thesis by auto
qed

theorem container_size_distinct_witness:
  "\<exists>c. container_insert_all id compare (new_core raw_memory) [5, 2, 8] = Some c
     \<and> sint (size_core c) = 3"
  using container_size_distinct[of compare compare "\<lambda>x. x" id "new_core raw_memory" "[5, 2, 8]"]
  by (simp add: total_cmp_compare new_core_def)

theorem container_size_wraps:
  "distinct_keys compare (map int [0..<2147483648])
   \<and> length (map int [0..<2147483648]) = 2147483648
   \<and> map_option (sint \<circ> size_core)
        (container_insert_all id compare (new_core raw_memory) (map int [0..<2147483648]))
     = Some (- 2147483648)"
proof -
  have D: "distinct_keys compare (map int [0..<2147483648])" by (rule distinct_keys_upt)
  have L: "length (map int [0..<2147483648]) = 2147483648" by (simp only: length_map length_upt diff_zero)
  have k: "\<forall>k. (\<lambda>x. x) (id k) = (k :: int)" by simp
  have a: "\<forall>k x. compare k x = compare k ((\<lambda>x. x) x)" by simp
  have r: "root (new_core raw_memory) = None" "count (new_core raw_memory) = 0"
    by (simp_all add: new_core_def)
  from container_count_distinct[OF total_cmp_compare a k r D] obtain c where
    c: "container_insert_all id compare (new_core raw_memory) (map int [0..<2147483648]) = Some c"
    and n: "size_core c = of_nat (length (map int [0..<2147483648]))"
    by blast
  have "sint (of_nat 2147483648 :: 32 word) = - 2147483648" by simp
  with n L have "sint (size_core c) = - 2147483648" by (simp only:)
  with c have "map_option (sint \<circ> size_core)
        (container_insert_all id compare (new_core raw_memory) (map int [0..<2147483648]))
     = Some (- 2147483648)"
    by (simp only: option.map comp_apply)
  with D L show ?thesis by (simp only: simp_thms)
qed

lemma chain_insert_hit:
  assumes tc: "total_cmp cmp" and W: "winv cmp (\<lambda>x. x) c t"
    and Z: "(a, x) \<in> set (zip (addrs t) (inorder t))" and E: "cmp key x = 0"
  shows "rootp (fst (descend cmp key t [])) = Some a"
proof -
  from W have S: "sorted_wrt (key_lt cmp (\<lambda>x. x)) (inorder t)"
    by (simp add: winv_def keys_sorted_def)
  have ag: "\<forall>x. cmp key x = cmp key ((\<lambda>x. x) x)" by simp
  from descend_finds[where kcmp = cmp and key_of = "\<lambda>x. x" and cmp = cmp and key = key
      and fs = "[]", OF tc ag S Z] E
  show ?thesis by simp
qed

text \<open>
  Claim C3. When a node equal to \<open>z\<close> under the comparator is already in the embedded
  tree (at address \<open>a\<close>), \<open>chain<Node>::insert(z, comp)\<close> leaves the root and the whole
  memory as they are, so links, colours and membership are unchanged and \<open>z\<close> is not
  linked in. But it returns \<open>z\<close>, the caller's node, where \<open>find\<close> returns the node \<open>a\<close>
  that was there, and it increments \<open>count\<close> although the tree has not grown.
\<close>

theorem chain_insert_duplicate_returns_argument:
  assumes "total_cmp cmp" and "winv cmp (\<lambda>x. x) c t"
    and "(a, x) \<in> set (zip (addrs t) (inorder t))" and "cmp (dat c z) x = 0"
  shows "chain_insert cmp c z = Some (c\<lparr>count := count c + 1\<rparr>, z)
         \<and> chain_find cmp c (dat c z) = Some (Some a)"
proof -
  from assms(2) have T: "tree_of c t" by (simp add: winv_def)
  from chain_insert_hit[OF assms]
  have r: "rootp (fst (descend cmp (dat c z) t [])) = Some a" .
  then obtain l k y r where "fst (descend cmp (dat c z) t []) = Nd l a k y r"
    by (cases "fst (descend cmp (dat c z) t [])") auto
  from chain_insert_found[OF T this]
  have 1: "chain_insert cmp c z = Some (c\<lparr>count := count c + 1\<rparr>, z)" .
  from T have "root c = rootp t" "htree (mem c) None t" by (simp_all add: tree_of_def)
  with chain_find_loop_sim[of c None t cmp "dat c z" "[]"] r
  have 2: "chain_find cmp c (dat c z) = Some (Some a)" by (simp add: chain_find_def)
  from 1 2 show ?thesis by simp
qed

theorem chain_insert_duplicate_returns_argument_witness:
  "chain_insert compare (new_core (\<lambda>a. new_link 5)) 0 = Some (two_links, 0)
   \<and> chain_insert compare two_links 1 = Some (two_links\<lparr>count := 2\<rparr>, 1)
   \<and> chain_find compare two_links 5 = Some (Some 0)"
  using chain_insert_duplicate_returns_argument[of compare two_links "Nd Lf 0 Black 5 Lf" 0 5 1]
  by (simp add: total_cmp_compare winv_def tree_of_def rb_inv_def keys_sorted_def
      two_links_def new_link_def new_core_def chain_insert_def chain_insert_loop.simps
      set_color_def)

lemma rb_inv_black_counts:
  "rb_inv t \<Longrightarrow> rootcol t = Black \<and> no_red_red t \<and> (\<exists>n. \<forall>m\<in>set (black_counts t). m = n)"
  by (auto simp: rb_inv_def black_counts_balanced)

text \<open>
  Claim C2. After any sequence of insertions into an empty tree under a total-order
  comparator, the tree in memory is a red-black tree: its root is black, no red node
  has a red child, every path from the root to a null link has the same number of black
  nodes, and the in-order traversal is strictly increasing in the comparator. It holds
  the inserted keys and nothing else. The first conjunct is the owning tree
  (\<open>container\<close>, keys \<open>ks\<close>), the second the embedded tree (\<open>chain\<close>, nodes \<open>zs\<close> that
  come with null arms, as \<open>link()\<close> constructs them).
\<close>

theorem insert_all_red_black:
  assumes "total_cmp kcmp" and "\<forall>k x. cmp k x = kcmp k (key_of x)"
    and "\<forall>k. key_of (mk k) = k" and "root c0 = None"
    and "total_cmp ncmp" and "root d0 = None" and "\<forall>z\<in>set zs. fresh_link d0 z"
  shows "(\<exists>c t. container_insert_all mk cmp c0 ks = Some c \<and> tree_of c t
            \<and> rootcol t = Black \<and> no_red_red t
            \<and> (\<exists>n. \<forall>m\<in>set (black_counts t). m = n)
            \<and> sorted_wrt (key_lt kcmp key_of) (inorder t)
            \<and> set (inorder t) \<subseteq> mk ` set ks
            \<and> (\<forall>k\<in>set ks. \<exists>x\<in>set (inorder t). kcmp k (key_of x) = 0))
       \<and> (\<exists>d t. chain_insert_all ncmp d0 zs = Some d \<and> tree_of d t
            \<and> rootcol t = Black \<and> no_red_red t
            \<and> (\<exists>n. \<forall>m\<in>set (black_counts t). m = n)
            \<and> sorted_wrt (key_lt ncmp (\<lambda>x. x)) (inorder t)
            \<and> set (addrs t) \<subseteq> set zs
            \<and> (\<forall>z\<in>set zs. \<exists>x\<in>set (inorder t). ncmp (dat d0 z) x = 0))"
proof
  have W: "winv kcmp key_of c0 Lf" using assms(4) by (rule winv_empty)
  have B: "\<forall>a\<in>set (addrs (Lf :: 'b tree)). a < brk c0" by simp
  from container_insert_all_inv[OF assms(1-3) W B, of ks] obtain c t where
    R: "container_insert_all mk cmp c0 ks = Some c" "winv kcmp key_of c t"
      "set (inorder t) \<subseteq> mk ` set ks"
      "\<forall>k\<in>set ks. \<exists>x\<in>set (inorder t). kcmp k (key_of x) = 0"
    by auto
  from R(2) have "tree_of c t" "rb_inv t" "sorted_wrt (key_lt kcmp key_of) (inorder t)"
    by (simp_all add: winv_def keys_sorted_def)
  with R(1,3,4) rb_inv_black_counts[of t]
  show "\<exists>c t. container_insert_all mk cmp c0 ks = Some c \<and> tree_of c t
            \<and> rootcol t = Black \<and> no_red_red t
            \<and> (\<exists>n. \<forall>m\<in>set (black_counts t). m = n)
            \<and> sorted_wrt (key_lt kcmp key_of) (inorder t)
            \<and> set (inorder t) \<subseteq> mk ` set ks
            \<and> (\<forall>k\<in>set ks. \<exists>x\<in>set (inorder t). kcmp k (key_of x) = 0)"
    by blast
next
  have W: "winv ncmp (\<lambda>x. x) d0 Lf" using assms(6) by (rule winv_empty)
  have F: "\<forall>z\<in>set zs. z \<in> set (addrs (Lf :: 'c tree)) \<or> fresh_link d0 z"
    using assms(7) by simp
  from chain_insert_all_inv[OF assms(5) W F] obtain d t where
    R: "chain_insert_all ncmp d0 zs = Some d" "winv ncmp (\<lambda>x. x) d t"
      "set (addrs t) \<subseteq> set zs"
      "\<forall>z\<in>set zs. \<exists>x\<in>set (inorder t). ncmp (dat d0 z) x = 0"
    by auto
  from R(2) have "tree_of d t" "rb_inv t" "sorted_wrt (key_lt ncmp (\<lambda>x. x)) (inorder t)"
    by (simp_all add: winv_def keys_sorted_def)
  with R(1,3,4) rb_inv_black_counts[of t]
  show "\<exists>d t. chain_insert_all ncmp d0 zs = Some d \<and> tree_of d t
            \<and> rootcol t = Black \<and> no_red_red t
            \<and> (\<exists>n. \<forall>m\<in>set (black_counts t). m = n)
            \<and> sorted_wrt (key_lt ncmp (\<lambda>x. x)) (inorder t)
            \<and> set (addrs t) \<subseteq> set zs
            \<and> (\<forall>z\<in>set zs. \<exists>x\<in>set (inorder t). ncmp (dat d0 z) x = 0)"
    by blast
qed

theorem insert_all_red_black_witness:
  "(\<exists>c t. container_insert_all id compare (new_core raw_memory) [5, 2, 8] = Some c \<and> tree_of c t
            \<and> rootcol t = Black \<and> no_red_red t
            \<and> (\<exists>n. \<forall>m\<in>set (black_counts t). m = n)
            \<and> sorted_wrt (key_lt compare (\<lambda>x. x)) (inorder t)
            \<and> set (inorder t) \<subseteq> {5, 2, 8}
            \<and> (\<forall>k\<in>{5, 2, 8}. k \<in> set (inorder t)))
       \<and> (\<exists>d t. chain_insert_all compare (new_core (\<lambda>a. new_link (int a))) [5, 2, 8] = Some d
            \<and> tree_of d t
            \<and> rootcol t = Black \<and> no_red_red t
            \<and> (\<exists>n. \<forall>m\<in>set (black_counts t). m = n)
            \<and> sorted_wrt (key_lt compare (\<lambda>x. x)) (inorder t)
            \<and> set (addrs t) \<subseteq> {5, 2, 8}
            \<and> (\<forall>z\<in>{5, 2, 8}. int z \<in> set (inorder t)))"
  using insert_all_red_black[of compare compare "\<lambda>x. x" id "new_core raw_memory" compare
      "new_core (\<lambda>a. new_link (int a))" "[5, 2, 8]" "[5, 2, 8]"]
  by (simp add: total_cmp_compare new_core_def fresh_link_def new_link_def)

section \<open>The two copies on call sequences\<close>

lemma run_container2_eq: "run_container2 mk cmp c cs = run_container mk cmp c cs"
proof (induction cs arbitrary: c)
  case Nil
  show ?case by simp
next
  case (Cons a cs)
  show ?case
  proof (cases a)
    case (Find k)
    with Cons show ?thesis by (simp add: container_find2_eq)
  next
    case (Insert z)
    with Cons show ?thesis
      by (cases "container_insert mk cmp c z") (auto simp: container_insert2_eq)
  qed
qed

lemma run_chain2_eq: "run_chain2 fcmp icmp c cs = run_chain fcmp icmp c cs"
proof (induction cs arbitrary: c)
  case Nil
  show ?case by simp
next
  case (Cons a cs)
  show ?case
  proof (cases a)
    case (ChainFind k)
    with Cons show ?thesis by (simp add: chain_find2_eq)
  next
    case (ChainInsert z)
    with Cons show ?thesis
      by (cases "chain_insert icmp c z") (auto simp: chain_insert2_eq)
  qed
qed

text \<open>
  Claim C10. The two copies of the utility are observationally equivalent: the
  constructors build the same state, and from any state every sequence of \<open>find\<close> and
  \<open>insert\<close> calls on the container, and on the chain, yields the same list of results
  (pointer returned, payload it points to, \<open>size()\<close> after the call) in both copies,
  or fails to return in both.
\<close>

theorem versions_observationally_equivalent:
  "new_core2 m = new_core m
   \<and> run_container2 mk cmp c cs = run_container mk cmp c cs
   \<and> run_chain2 fcmp icmp d ds = run_chain fcmp icmp d ds"
  by (simp add: new_core2_def new_core_def run_container2_eq run_chain2_eq)

theorem versions_observationally_equivalent_witness:
  "run_container2 id compare (new_core2 raw_memory) [Insert 5, Insert 5, Find 5, Find 7]
     = Some [(Some 0, Some 5, 1), (Some 0, Some 5, 1), (Some 0, Some 5, 1), (None, None, 1)]
   \<and> run_chain2 compare compare (new_core2 (\<lambda>a. new_link 5))
        [ChainInsert 0, ChainInsert 1, ChainFind 5]
     = Some [(Some 0, Some 5, 1), (Some 1, Some 5, 2), (Some 0, Some 5, 2)]"
proof -
  have A: "run_container id compare (new_core raw_memory) [Insert 5, Insert 5, Find 5, Find 7]
     = Some [(Some 0, Some 5, 1), (Some 0, Some 5, 1), (Some 0, Some 5, 1), (None, None, 1)]"
    by (simp add: container_insert_def make_node_def allocate_def new_core_def
      set_left_def set_right_def set_parent_def set_data_def set_color_def size_core_def
      raw_memory_def new_link_def compare_def container_insert_loop.simps Let_def
      container_find_def container_find_loop.simps)
  have B: "run_chain compare compare (new_core (\<lambda>a. new_link 5))
        [ChainInsert 0, ChainInsert 1, ChainFind 5]
     = Some [(Some 0, Some (5::int), 1), (Some 1, Some 5, 2), (Some 0, Some 5, 2)]"
    by (simp add: new_core_def set_parent_def set_color_def size_core_def
      new_link_def compare_def Let_def chain_insert_def chain_insert_loop.simps
      chain_find_def chain_find_loop.simps)
  have A2: "run_container2 id compare (new_core2 raw_memory) [Insert 5, Insert 5, Find 5, Find 7]
     = run_container id compare (new_core raw_memory) [Insert 5, Insert 5, Find 5, Find 7]"
    using versions_observationally_equivalent[of raw_memory id compare "new_core raw_memory"
      "[Insert 5, Insert 5, Find 5, Find 7]" compare compare "new_core raw_memory" "[]"]
    by (elim conjE) (simp only:)
  have B2: "run_chain2 compare compare (new_core2 (\<lambda>a. new_link (5::int)))
        [ChainInsert 0, ChainInsert 1, ChainFind 5]
     = run_chain compare compare (new_core (\<lambda>a. new_link 5))
        [ChainInsert 0, ChainInsert 1, ChainFind 5]"
    using versions_observationally_equivalent[of "\<lambda>a. new_link (5::int)" id compare
      "new_core raw_memory" "[]"
      compare compare "new_core (\<lambda>a. new_link 5)" "[ChainInsert 0, ChainInsert 1, ChainFind 5]"]
    by (elim conjE) (simp only:)
  from A B A2 B2 show ?thesis by (simp only:)
qed

section \<open>Retrieval by position\<close>

lemma total_cmp_scope_datum_comp: "total_cmp scope_datum_comp"
  by (auto simp: total_cmp_def scope_datum_comp_def compare_def)

lemma decl_sequence_insert_all_chain:
  "decl_sequence_insert_all d zs = chain_insert_all scope_datum_comp d zs"
  by (induction zs arbitrary: d)
     (auto simp: decl_sequence_insert_def split: option.splits)

lemma inorder_walk_tree:
  "htree (mem c) up t \<Longrightarrow> inorder_walk c (rootp t) = Some (addrs t)"
proof (induction t arbitrary: up)
  case Lf
  show ?case by (subst inorder_walk.simps) simp
next
  case (Nd l a k x r)
  then show ?case by (subst inorder_walk.simps) auto
qed

lemma htree_inorder:
  "htree h up t \<Longrightarrow> inorder t = map (\<lambda>a. data (h a)) (addrs t)"
  by (induction t arbitrary: up) auto

lemma sorted_by_pos_unique:
  assumes S: "sorted_wrt (\<lambda>x y. scope_pos x < scope_pos y) xs"
    and E: "set xs = set ys" and D: "distinct (map scope_pos ys)"
  shows "xs = sort_key scope_pos ys"
proof -
  from S have 1: "sorted_wrt (<) (map scope_pos xs)" by (simp add: sorted_wrt_map)
  then have 2: "sorted (map scope_pos xs)" "distinct (map scope_pos xs)"
    by (simp_all add: strict_sorted_iff)
  have 3: "sorted (map scope_pos (sort_key scope_pos ys))" by simp
  from D have I: "inj_on scope_pos (set ys)" and dy: "distinct ys" by (simp_all add: distinct_map)
  then have 4: "distinct (map scope_pos (sort_key scope_pos ys))"
    by (simp add: distinct_map)
  from E have 5: "set (map scope_pos xs) = set (map scope_pos (sort_key scope_pos ys))" by simp
  from sorted_distinct_set_unique[OF 2(1) 2(2) 3 4 5]
  have "map scope_pos xs = map scope_pos (sort_key scope_pos ys)" .
  moreover from I E have "inj_on scope_pos (set xs \<union> set (sort_key scope_pos ys))" by simp
  ultimately show ?thesis by (simp add: inj_on_map_eq_map)
qed

lemma decl_sequence_reach:
  assumes r0: "root d0 = None" and F: "\<forall>z\<in>set zs. fresh_link d0 z"
    and D: "distinct (map (\<lambda>z. scope_pos (dat d0 z)) zs)"
  shows "\<exists>d t. decl_sequence_insert_all d0 zs = Some d \<and> tree_of d t
           \<and> count d = count d0 + of_nat (length zs)
           \<and> (\<forall>a. dat d a = dat d0 a)
           \<and> inorder t = sort_key scope_pos (map (dat d0) zs)"
proof -
  have W: "winv scope_datum_comp (\<lambda>x. x) d0 Lf" using r0 by (rule winv_empty)
  have F': "\<forall>z\<in>set zs. z \<in> set (addrs (Lf :: scope_datum tree)) \<or> fresh_link d0 z"
    using F by simp
  from chain_insert_all_inv[OF total_cmp_scope_datum_comp W F'] obtain d t where
    R: "chain_insert_all scope_datum_comp d0 zs = Some d"
      "winv scope_datum_comp (\<lambda>x. x) d t"
      "count d = count d0 + of_nat (length zs)"
      "\<forall>a. dat d a = dat d0 a"
      "set (addrs t) \<subseteq> set zs"
      "\<forall>z\<in>set zs. \<exists>x\<in>set (inorder t). scope_datum_comp (dat d0 z) x = 0"
    by auto
  from R(2) have T: "tree_of d t"
    and S: "sorted_wrt (key_lt scope_datum_comp (\<lambda>x. x)) (inorder t)"
    by (simp_all add: winv_def keys_sorted_def)
  have kl: "key_lt scope_datum_comp (\<lambda>x. x) = (\<lambda>x y. scope_pos x < scope_pos y)"
    by (auto simp: fun_eq_iff key_lt_def scope_datum_comp_def compare_def)
  from S have S': "sorted_wrt (\<lambda>x y. scope_pos x < scope_pos y) (inorder t)"
    by (simp add: kl)
  from T have H: "htree (mem d) None t" by (simp add: tree_of_def)
  have io: "inorder t = map (dat d0) (addrs t)"
    using htree_inorder[OF H] R(4) by simp
  have sub: "set (inorder t) \<subseteq> set (map (dat d0) zs)"
    using io R(5) by auto
  from D have inj: "inj_on (\<lambda>z. scope_pos (dat d0 z)) (set zs)" by (simp add: distinct_map)
  have sup: "set (map (dat d0) zs) \<subseteq> set (inorder t)"
  proof
    fix y assume "y \<in> set (map (dat d0) zs)"
    then obtain z where z: "z \<in> set zs" "y = dat d0 z" by auto
    with R(6) obtain x where x: "x \<in> set (inorder t)" "scope_datum_comp (dat d0 z) x = 0"
      by blast
    from x(1) sub obtain z' where z': "z' \<in> set zs" "x = dat d0 z'" by auto
    from x(2) z' have "scope_pos (dat d0 z) = scope_pos (dat d0 z')"
      by (simp add: scope_datum_comp_def)
    with inj z(1) z'(1) have "z = z'" by (auto dest: inj_onD)
    with z z' x(1) show "y \<in> set (inorder t)" by simp
  qed
  from D have D': "distinct (map scope_pos (map (dat d0) zs))" by (simp add: comp_def)
  from sub sup have "set (inorder t) = set (map (dat d0) zs)" by blast
  from sorted_by_pos_unique[OF S' this D']
  have "inorder t = sort_key scope_pos (map (dat d0) zs)" .
  with R(1,3,4) T show ?thesis
    by (auto simp: decl_sequence_insert_all_chain)
qed

lemma decl_sequence_get_tree:
  assumes T: "tree_of d t" and N: "count d = of_nat (length (addrs t))"
    and L: "length (addrs t) < 2147483648"
  shows "decl_sequence_get d i =
     Some (if 0 \<le> i \<and> i < int (length (addrs t)) then check (decl (inorder t ! nat i))
           else Inl OutOfRange)"
proof -
  from T have H: "htree (mem d) None t" and r: "root d = rootp t" by (simp_all add: tree_of_def)
  from inorder_walk_tree[OF H] r have w: "inorder_walk d (root d) = Some (addrs t)" by simp
  from htree_inorder[OF H] have io: "inorder t = map (dat d) (addrs t)" .
  from N sint_of_nat_int32[OF L] have "sint (count d) = int (length (addrs t))" by simp
  with w show ?thesis
    by (auto simp: decl_sequence_get_def decl_sequence_size_def size_core_def io)
qed

text \<open>
  Claim C9. Register any declarations with pairwise different positions (at most
  \<open>2^31 - 1\<close> of them, so that \<open>size()\<close> holds their number) in an empty decl-sequence, in
  any order. Every insertion returns, \<open>size()\<close> is their number, \<open>get(i)\<close> for \<open>i\<close> in
  \<open>[0, size())\<close> is the declaration that is \<open>i\<close>-th when they are sorted by position, and
  \<open>get(i)\<close> outside signals \<open>OutOfRange\<close>. The witness registers the positions 5, 2, 8:
  \<open>get(0)\<close>, \<open>get(1)\<close>, \<open>get(2)\<close> are the declarations with the positions 2, 5, 8.
\<close>

theorem decl_sequence_get_by_position:
  assumes "root d0 = None" and "count d0 = 0"
    and "\<forall>z\<in>set zs. fresh_link d0 z"
    and "distinct (map (\<lambda>z. scope_pos (dat d0 z)) zs)"
    and "length zs \<le> 2147483647"
  shows "\<exists>d. decl_sequence_insert_all d0 zs = Some d
           \<and> sint (decl_sequence_size d) = int (length zs)
           \<and> (\<forall>i. decl_sequence_get d i =
                 Some (if 0 \<le> i \<and> i < int (length zs)
                       then check (decl (sort_key scope_pos (map (dat d0) zs) ! nat i))
                       else Inl OutOfRange))"
proof -
  from decl_sequence_reach[OF assms(1,3,4)] obtain d t where
    R: "decl_sequence_insert_all d0 zs = Some d" "tree_of d t"
      "count d = count d0 + of_nat (length zs)"
      "inorder t = sort_key scope_pos (map (dat d0) zs)"
    by blast
  from R(4) have "length (inorder t) = length zs" by simp
  then have L: "length (addrs t) = length zs" by simp
  with R(3) assms(2) have N: "count d = of_nat (length (addrs t))" by simp
  from L assms(5) have B: "length (addrs t) < 2147483648" by simp
  from N sint_of_nat_int32[OF B] L have Z: "sint (count d) = int (length zs)" by simp
  from decl_sequence_get_tree[OF R(2) N B] R(4) L
  have "\<forall>i. decl_sequence_get d i =
                 Some (if 0 \<le> i \<and> i < int (length zs)
                       then check (decl (sort_key scope_pos (map (dat d0) zs) ! nat i))
                       else Inl OutOfRange)"
    by simp
  with R(1) Z show ?thesis
    by (auto simp: decl_sequence_size_def size_core_def)
qed

theorem decl_sequence_get_by_position_witness:
  "\<exists>d. decl_sequence_insert_all (new_core three_decls) [0, 1, 2] = Some d
     \<and> sint (decl_sequence_size d) = 3
     \<and> decl_sequence_get d 0 = Some (Inr 101)
     \<and> decl_sequence_get d 1 = Some (Inr 100)
     \<and> decl_sequence_get d 2 = Some (Inr 102)
     \<and> decl_sequence_get d 3 = Some (Inl OutOfRange)"
proof -
  have "distinct (map (\<lambda>z. scope_pos (dat (new_core three_decls) z)) [0, 1, 2])"
    by (simp add: new_core_def three_decls_def new_link_def)
  with decl_sequence_get_by_position[of "new_core three_decls" "[0, 1, 2]"]
  obtain d where R: "decl_sequence_insert_all (new_core three_decls) [0, 1, 2] = Some d"
    "sint (decl_sequence_size d) = int (length [0 :: nat, 1, 2])"
    "\<forall>i. decl_sequence_get d i =
       Some (if 0 \<le> i \<and> i < int (length [0 :: nat, 1, 2])
             then check (decl (sort_key scope_pos
                    (map (dat (new_core three_decls)) [0, 1, 2]) ! nat i))
             else Inl OutOfRange)"
    by (auto simp: new_core_def fresh_link_def three_decls_def new_link_def
        simp del: decl_sequence_insert_all.simps)
  have S: "sort_key scope_pos (map (dat (new_core three_decls)) [0, 1, 2])
      = [dat (new_core three_decls) 1, dat (new_core three_decls) 0,
         dat (new_core three_decls) 2]"
    by (simp add: new_core_def three_decls_def new_link_def)
  from R(1,2) show ?thesis
    by (intro exI[of _ d]) (simp add: R(3) S new_core_def three_decls_def new_link_def check_def)
qed

section \<open>Declarations and lookups in a scope\<close>

text \<open>The definitions a declaration unfolds to.\<close>

lemmas eval_defs = make_var_def decl_factory_declare_def decl_factory_redeclare_def make_decl_rep_def
  make_master_decl_data_def Overload_push_back_def Overload_lookup_def entries_def
  new_Scope_def new_Overload_def name_compare_def type_compare_def entry_compare_def
  container_insert_def make_node_def allocate_def new_core_def
  set_left_def set_right_def set_parent_def set_data_def set_color_def
  new_link_def compare_def container_insert_loop.simps Let_def
  chain_insert_def chain_insert_loop.simps chain_find_def chain_find_loop.simps
  fixup_insert_def fixup_loop.simps



declare homogeneous_scope_loop.simps [simp del]

lemma rootp_tset [simp]: "rootp (tset a x t) = rootp t"
  by (cases t) auto

lemma rootcol_tset [simp]: "rootcol (tset a x t) = rootcol t"
  by (cases t) auto

lemma addrs_tset [simp]: "addrs (tset a x t) = addrs t"
  by (induction t) auto

lemma no_red_red_tset [simp]: "no_red_red (tset a x t) = no_red_red t"
  by (induction t) auto

lemma bh_tset [simp]: "bh (tset a x t) = bh t"
  by (induction t) auto

lemma balanced_tset [simp]: "balanced (tset a x t) = balanced t"
  by (induction t) auto

lemma htree_tset:
  "htree h up t \<Longrightarrow> htree (h(a := (h a)\<lparr>data := x\<rparr>)) up (tset a x t)"
  by (induction t arbitrary: up) auto

lemma keys_tset:
  "htree h up t \<Longrightarrow> key_of x = key_of (data (h a)) \<Longrightarrow>
   map key_of (inorder (tset a x t)) = map key_of (inorder t)"
  by (induction t arbitrary: up) auto

lemma keys_sorted_map:
  "keys_sorted kcmp key_of t = sorted_wrt (\<lambda>a b. kcmp a b < 0) (map key_of (inorder t))"
proof -
  have "key_lt kcmp key_of = (\<lambda>x y. kcmp (key_of x) (key_of y) < 0)"
    by (simp add: fun_eq_iff key_lt_def)
  then show ?thesis by (simp add: keys_sorted_def sorted_wrt_map)
qed

lemma winv_set_data:
  assumes W: "winv kcmp key_of c t" and K: "key_of x = key_of (dat c a)"
  shows "winv kcmp key_of (set_data a x c) (tset a x t)"
proof -
  from W have T: "tree_of c t" and R: "rb_inv t" and S: "keys_sorted kcmp key_of t"
    by (simp_all add: winv_def)
  from T have H: "htree (mem c) None t" by (simp add: tree_of_def)
  from T htree_tset[OF H, of a x] have "tree_of (set_data a x c) (tset a x t)"
    by (simp add: tree_of_def set_data_def)
  moreover from R have "rb_inv (tset a x t)" by (simp add: rb_inv_def)
  moreover from S keys_tset[OF H K] have "keys_sorted kcmp key_of (tset a x t)"
    by (simp add: keys_sorted_map)
  ultimately show ?thesis by (simp add: winv_def)
qed

lemma names_inv_set_data:
  assumes I: "names_inv s N" and O: "overloads s' = set_data a x (overloads s)"
    and K: "name x = name (dat (overloads s) a)"
  shows "names_inv s' N"
proof -
  from I obtain t where W: "winv compare name (overloads s) t"
    and B: "\<forall>a\<in>set (addrs t). a < brk (overloads s)"
    and S: "name ` set (inorder t) \<subseteq> N"
    by (auto simp: names_inv_def)
  from W have H: "htree (mem (overloads s)) None t" by (simp add: winv_def tree_of_def)
  from keys_tset[OF H K] have "set (map name (inorder (tset a x t))) = set (map name (inorder t))"
    by simp
  with S have "name ` set (inorder (tset a x t)) \<subseteq> N" by simp
  with winv_set_data[OF W K] B O show ?thesis
    by (auto simp: names_inv_def set_data_def)
qed

lemma make_decl_rep_overloads: "overloads (fst (make_decl_rep s m)) = overloads s"
  by (simp add: make_decl_rep_def Let_def)

lemma make_master_decl_data_overloads: "overloads (fst (make_master_decl_data s t)) = overloads s"
  by (simp add: make_master_decl_data_def Let_def)

lemma Overload_push_back_overloads:
  "Overload_push_back s ovl m = Some s' \<Longrightarrow>
   \<exists>x. overloads s' = set_data ovl x (overloads s) \<and> name x = name (dat (overloads s) ovl)"
  by (auto simp: Overload_push_back_def Let_def split: Option.bind_splits)

lemma decl_factory_declare_overloads:
  assumes "decl_factory_declare s ovl t = Some (s', d)"
  shows "\<exists>x. overloads s' = set_data ovl x (overloads s) \<and> name x = name (dat (overloads s) ovl)"
proof -
  obtain s1 m where 1: "make_master_decl_data s t = (s1, m)" by (cases "make_master_decl_data s t")
  obtain s2 r where 2: "make_decl_rep s1 m = (s2, r)" by (cases "make_decl_rep s1 m")
  from assms 1 2 have P: "Overload_push_back s2 ovl m = Some s'"
    by (auto simp: decl_factory_declare_def split: Option.bind_splits)
  from make_master_decl_data_overloads[of s t] 1 have "overloads s1 = overloads s" by simp
  moreover from make_decl_rep_overloads[of s1 m] 2 have "overloads s2 = overloads s1" by simp
  ultimately show ?thesis using Overload_push_back_overloads[OF P] by simp
qed

lemma total_cmp_name: "\<forall>k x. name_compare k x = compare k (name x)"
  by (simp add: name_compare_def)

lemma name_new_Overload: "\<forall>k. name (new_Overload k) = k"
  by (simp add: new_Overload_def)

lemma names_inv_insert:
  assumes I: "names_inv s N"
    and R: "container_insert new_Overload name_compare (overloads s) n = Some (c, p)"
  shows "names_inv (s\<lparr>overloads := c\<rparr>) (insert n N)"
proof -
  from I obtain t where W: "winv compare name (overloads s) t"
    and B: "\<forall>a\<in>set (addrs t). a < brk (overloads s)"
    and S: "name ` set (inorder t) \<subseteq> N"
    by (auto simp: names_inv_def)
  from container_insert_cases[OF total_cmp_compare total_cmp_name name_new_Overload W B, of n] R
  show ?thesis
  proof (elim disjE exE conjE)
    fix a x assume "container_insert new_Overload name_compare (overloads s) n = Some (overloads s, a)"
    with R have "c = overloads s" by simp
    with W B S show ?thesis by (auto simp: names_inv_def)
  next
    fix c' t'
    assume "container_insert new_Overload name_compare (overloads s) n = Some (c', brk (overloads s))"
      and W': "winv compare name c' t'" and B': "\<forall>a\<in>set (addrs t'). a < brk c'"
      and S': "set (inorder t') = insert (new_Overload n) (set (inorder t))"
    with R have "c = c'" by simp
    moreover from S S' have "name ` set (inorder t') \<subseteq> insert n N"
      by (auto simp: new_Overload_def)
    ultimately show ?thesis using W' B' by (auto simp: names_inv_def)
  qed
qed

lemma names_inv_other:
  "names_inv s N \<Longrightarrow> overloads s' = overloads s \<Longrightarrow> names_inv s' N"
  by (simp add: names_inv_def)

lemma make_var_names_inv:
  assumes I: "names_inv s N" and R: "make_var s n t = Some (s', d)"
  shows "names_inv s' (insert n N)"
proof -
  from R obtain c ovl e where
    C: "container_insert new_Overload name_compare (overloads s) n = Some (c, ovl)"
    and E: "Overload_lookup (s\<lparr>overloads := c\<rparr>) ovl t = Some e"
    and D: "(case e of None \<Rightarrow> decl_factory_declare (s\<lparr>overloads := c\<rparr>) ovl t
             | Some m \<Rightarrow> Some (decl_factory_redeclare (s\<lparr>overloads := c\<rparr>) m)) = Some (s', d)"
    by (auto simp: make_var_def Let_def split: Option.bind_splits)
  from names_inv_insert[OF I C] have I1: "names_inv (s\<lparr>overloads := c\<rparr>) (insert n N)" .
  show ?thesis
  proof (cases e)
    case (Some m)
    with D have "overloads s' = overloads (s\<lparr>overloads := c\<rparr>)"
      using make_decl_rep_overloads[of "s\<lparr>overloads := c\<rparr>" m]
      by (auto simp: decl_factory_redeclare_def)
    with I1 show ?thesis by (rule names_inv_other)
  next
    case None
    with D have "decl_factory_declare (s\<lparr>overloads := c\<rparr>) ovl t = Some (s', d)" by simp
    from decl_factory_declare_overloads[OF this] obtain x where
      "overloads s' = set_data ovl x (overloads (s\<lparr>overloads := c\<rparr>))"
      "name x = name (dat (overloads (s\<lparr>overloads := c\<rparr>)) ovl)"
      by blast
    with I1 show ?thesis by (rule names_inv_set_data)
  qed
qed

lemma declare_all_names_inv:
  "names_inv s N \<Longrightarrow> declare_all s ds = Some s' \<Longrightarrow> names_inv s' (N \<union> fst ` set ds)"
proof (induction ds arbitrary: s N)
  case Nil
  then show ?case by simp
next
  case (Cons a ds)
  obtain n t where a: "a = (n, t)" by (cases a)
  with Cons.prems(2) obtain s1 d where
    M: "make_var s n t = Some (s1, d)" and A: "declare_all s1 ds = Some s'"
    by (auto split: option.splits)
  from Cons.IH[OF make_var_names_inv[OF Cons.prems(1) M] A] a show ?case by simp
qed

lemma names_inv_new: "names_inv (new_Scope om em) {}"
  by (simp add: names_inv_def new_Scope_def new_core_def winv_empty[of _ compare name]
      exI[of _ Lf])

lemma Scope_subscript_missing:
  assumes I: "names_inv s N" and n: "n \<notin> N"
  shows "Scope_subscript s n = Some Missing"
proof -
  from I obtain t where W: "winv compare name (overloads s) t"
    and S: "name ` set (inorder t) \<subseteq> N"
    by (auto simp: names_inv_def)
  from W have T: "tree_of (overloads s) t" and K: "keys_sorted compare name t"
    by (simp_all add: winv_def)
  have ag: "\<forall>x. name_compare n x = compare n (name x)" by (simp add: name_compare_def)
  from S n have "\<forall>x\<in>set (inorder t). compare n (name x) \<noteq> 0" by auto
  with descend_Lf_iff[where kcmp = compare and key_of = name and cmp = name_compare
      and key = n and fs = "[]", OF total_cmp_compare ag K]
  have "fst (descend name_compare n t []) = Lf" by simp
  with container_find_tree[OF T, of name_compare n]
  show ?thesis by (simp add: Scope_subscript_def Scope_lookup_def)
qed

lemma homogeneous_scope_loop_missing:
  "s = val_sequence_size ms \<Longrightarrow> 0 \<le> i \<Longrightarrow> n \<notin> member_name ` set ms \<Longrightarrow>
   homogeneous_scope_loop ms n s i = Inr Missing"
proof (induction ms n s i rule: homogeneous_scope_loop.induct)
  case (1 ms n s i)
  show ?case
  proof (cases "i < s")
    case False
    then show ?thesis by (subst homogeneous_scope_loop.simps) simp
  next
    case True
    with 1(2,3) have g: "val_sequence_get ms i = Inr (ms ! nat i)"
      by (simp add: val_sequence_get_def)
    from True 1(2,3) have "ms ! nat i \<in> set ms" by (simp add: val_sequence_size_def)
    with 1(4) have ne: "member_name (ms ! nat i) \<noteq> n" by auto
    from 1(1)[OF True g ne 1(2) _ 1(4)] 1(3)
    have "homogeneous_scope_loop ms n s (i + 1) = Inr Missing" by simp
    with True g ne show ?thesis by (subst homogeneous_scope_loop.simps) simp
  qed
qed

text \<open>
  Claim C7. In a scope reached from a new one by any declarations \<open>ds\<close>, the lookup of a
  name that none of them declares returns, and returns the empty overload set; so does
  the lookup in a homogeneous scope none of whose members has the name. The size of the
  empty overload set is 0 and indexing it at 0 signals \<open>OutOfRange\<close>.
\<close>

theorem scope_lookup_undeclared:
  "(declare_all (new_Scope om em) ds = Some s \<and> n \<notin> fst ` set ds \<longrightarrow>
      Scope_subscript s n = Some Missing)
   \<and> (n \<notin> member_name ` set ms \<longrightarrow> homogeneous_scope_subscript ms n = Inr Missing)
   \<and> lookup_size sz Missing = 0
   \<and> lookup_get gt Missing 0 = Inl OutOfRange"
proof (intro conjI impI)
  assume A: "declare_all (new_Scope om em) ds = Some s \<and> n \<notin> fst ` set ds"
  from declare_all_names_inv[OF names_inv_new, of om em ds s] A
  have "names_inv s (fst ` set ds)" by simp
  with A show "Scope_subscript s n = Some Missing" by (intro Scope_subscript_missing) auto
next
  assume "n \<notin> member_name ` set ms"
  then show "homogeneous_scope_subscript ms n = Inr Missing"
    unfolding homogeneous_scope_subscript_def
    by (intro homogeneous_scope_loop_missing) simp_all
next
  show "lookup_size sz Missing = 0" by (simp add: lookup_size_def empty_overload_size_def)
next
  show "lookup_get gt Missing 0 = Inl OutOfRange"
    by (simp add: lookup_get_def empty_overload_get_def)
qed

theorem scope_lookup_undeclared_witness:
  "(\<exists>s. declare_all (new_Scope raw_overloads raw_entries) [(1, 10)] = Some s
        \<and> Scope_subscript s 2 = Some Missing)
   \<and> homogeneous_scope_subscript [\<lparr>member_name = 1, overload = 7\<rparr>] 2 = Inr (Missing :: nat lookup)
   \<and> lookup_size (\<lambda>p :: nat. 1) Missing = 0
   \<and> lookup_get (\<lambda>(p :: nat) i. Inr p) Missing 0 = Inl OutOfRange"
proof -
  have "\<exists>s. declare_all (new_Scope raw_overloads raw_entries) [(1, 10)] = Some s"
    by (simp add: eval_defs)
  then obtain s where s: "declare_all (new_Scope raw_overloads raw_entries) [(1, 10)] = Some s" ..
  from scope_lookup_undeclared[of raw_overloads raw_entries "[(1, 10)]" s 2
      "[\<lparr>member_name = 1, overload = 7 :: nat\<rparr>]" "\<lambda>p :: nat. 1" "\<lambda>(p :: nat) i. Inr p"] s
  show ?thesis by auto
qed

end
